theory Spec2Isabelle
  imports Main
begin

section \<open>C characters, strings and buffers\<close>

text \<open>
  A C \<^verbatim>\<open>char\<close> is an Isabelle \<^typ>\<open>char\<close> (one byte). A character array is a
  \<^typ>\<open>char list\<close> whose length is the array's size. A C string runs up to, and does not
  include, the first NUL byte. A list given where C expects a string stands for its bytes
  followed by a NUL: the end of the list counts as the terminator. Where the program passes
  an array that need not hold a NUL (the length field of a request that the server has
  received), the model passes the array followed by the bytes that lie behind it in memory.
\<close>

definition NUL :: char where
  "NUL = CHR 0x00"

definition c_str :: "char list \<Rightarrow> string" where
  "c_str buf = takeWhile (\<lambda>c. c \<noteq> NUL) buf"

datatype error =
    OutOfBounds int         \<comment> \<open>a store outside the array, at the given index\<close>
  | TransportFailure        \<comment> \<open>\<^verbatim>\<open>sendto\<close> or \<^verbatim>\<open>recvfrom\<close> reported an error\<close>
  | InputExhausted          \<comment> \<open>the finite input sequence given to the model has run out\<close>

text \<open>The assignment \<^verbatim>\<open>password[i] = c\<close>, with the array bound made explicit.\<close>

definition store :: "char list \<Rightarrow> int \<Rightarrow> char \<Rightarrow> error + char list" where
  "store password i c =
     (if 0 \<le> i \<and> i < int (length password) then Inr (password[nat i := c])
      else Inl (OutOfBounds i))"

section \<open>libs/password/password.c (server): password generation\<close>

text \<open>
  \<^verbatim>\<open>rand()\<close> is the C library's generator. The model takes the sequence of values that
  successive calls return as a parameter \<open>src\<close> (call number \<open>n\<close> returns \<open>src n\<close>, a
  non-negative number), and threads the number of calls made so far.
\<close>

type_synonym rand_source = "nat \<Rightarrow> nat"

definition rand :: "rand_source \<Rightarrow> nat \<Rightarrow> nat \<times> nat" where
  "rand src pos = (src pos, Suc pos)"

datatype PasswordType = NUMERIC | ALPHA | MIXED | SECURE | UNAMBIGUOUS

text \<open>
  The five generators share one loop shape,
  \<^verbatim>\<open>for (int i = 0; i < length; i++) password[i] = <draw>;\<close>
  which \<open>fill_loop\<close> models with the drawing expression as a parameter.
\<close>

function fill_loop ::
  "(rand_source \<Rightarrow> nat \<Rightarrow> char \<times> nat) \<Rightarrow> rand_source \<Rightarrow> nat \<Rightarrow> char list \<Rightarrow> int \<Rightarrow> int
     \<Rightarrow> error + (char list \<times> nat)" where
  "fill_loop draw src pos password i len =
     (if i < len then
        (case draw src pos of (c, pos') \<Rightarrow>
           (case store password i c of
              Inl e \<Rightarrow> Inl e
            | Inr password' \<Rightarrow> fill_loop draw src pos' password' (i + 1) len))
      else Inr (password, pos))"
  by pat_completeness auto
termination
  by (relation "measure (\<lambda>(draw, src, pos, password, i, len). nat (len - i))") auto

declare fill_loop.simps [simp del]

text \<open>The loop followed by \<^verbatim>\<open>password[length] = '\0'\<close>.\<close>

definition fill_and_terminate ::
  "(rand_source \<Rightarrow> nat \<Rightarrow> char \<times> nat) \<Rightarrow> rand_source \<Rightarrow> nat \<Rightarrow> char list \<Rightarrow> int
     \<Rightarrow> error + (char list \<times> nat)" where
  "fill_and_terminate draw src pos password len =
     (case fill_loop draw src pos password 0 len of
        Inl e \<Rightarrow> Inl e
      | Inr (password', pos') \<Rightarrow>
          (case store password' len NUL of
             Inl e \<Rightarrow> Inl e
           | Inr password'' \<Rightarrow> Inr (password'', pos')))"

text \<open>\<^verbatim>\<open>'0' + rand() % 10\<close>\<close>

definition numeric_char :: "rand_source \<Rightarrow> nat \<Rightarrow> char \<times> nat" where
  "numeric_char src pos =
     (case rand src pos of (r, pos') \<Rightarrow> (char_of (of_char CHR ''0'' + r mod 10 :: nat), pos'))"

text \<open>\<^verbatim>\<open>'a' + rand() % 26\<close>\<close>

definition alpha_char :: "rand_source \<Rightarrow> nat \<Rightarrow> char \<times> nat" where
  "alpha_char src pos =
     (case rand src pos of (r, pos') \<Rightarrow> (char_of (of_char CHR ''a'' + r mod 26 :: nat), pos'))"

text \<open>\<^verbatim>\<open>(rand() % 2) ? 'a' + rand() % 26 : '0' + rand() % 10\<close>\<close>

definition mixed_char :: "rand_source \<Rightarrow> nat \<Rightarrow> char \<times> nat" where
  "mixed_char src pos =
     (case rand src pos of (choice, pos') \<Rightarrow>
        if choice mod 2 \<noteq> 0 then alpha_char src pos' else numeric_char src pos')"

text \<open>\<^verbatim>\<open>sizeof\<close> of an array initialised by a string literal counts the terminator.\<close>

definition sizeof_literal :: "string \<Rightarrow> nat" where
  "sizeof_literal s = length s + 1"

definition secure_charset :: string where
  "secure_charset =
     ''abcdefghijklmnopqrstuvwxyzABCDEFGHIJKLMNOPQRSTUVWXYZ0123456789!@#$%^&*()''"

definition unambiguous_charset :: string where
  "unambiguous_charset = ''abcdefghjkmnpqrtuvwxyACDEFGHJKLMNPQRTUVWXY34679!@#$%^&*()''"

text \<open>\<^verbatim>\<open>charset[rand() % (sizeof(charset) - 1)]\<close>\<close>

definition charset_char :: "string \<Rightarrow> rand_source \<Rightarrow> nat \<Rightarrow> char \<times> nat" where
  "charset_char charset src pos =
     (case rand src pos of (r, pos') \<Rightarrow> (charset ! (r mod (sizeof_literal charset - 1)), pos'))"

definition generate_numeric ::
  "rand_source \<Rightarrow> nat \<Rightarrow> char list \<Rightarrow> int \<Rightarrow> error + (char list \<times> nat)" where
  "generate_numeric src pos password len = fill_and_terminate numeric_char src pos password len"

definition generate_alpha ::
  "rand_source \<Rightarrow> nat \<Rightarrow> char list \<Rightarrow> int \<Rightarrow> error + (char list \<times> nat)" where
  "generate_alpha src pos password len = fill_and_terminate alpha_char src pos password len"

definition generate_mixed ::
  "rand_source \<Rightarrow> nat \<Rightarrow> char list \<Rightarrow> int \<Rightarrow> error + (char list \<times> nat)" where
  "generate_mixed src pos password len = fill_and_terminate mixed_char src pos password len"

definition generate_secure ::
  "rand_source \<Rightarrow> nat \<Rightarrow> char list \<Rightarrow> int \<Rightarrow> error + (char list \<times> nat)" where
  "generate_secure src pos password len =
     fill_and_terminate (charset_char secure_charset) src pos password len"

definition generate_unambiguous ::
  "rand_source \<Rightarrow> nat \<Rightarrow> char list \<Rightarrow> int \<Rightarrow> error + (char list \<times> nat)" where
  "generate_unambiguous src pos password len =
     fill_and_terminate (charset_char unambiguous_charset) src pos password len"

fun generate_password ::
  "rand_source \<Rightarrow> nat \<Rightarrow> char list \<Rightarrow> PasswordType \<Rightarrow> int \<Rightarrow> error + (char list \<times> nat)" where
  "generate_password src pos password NUMERIC len = generate_numeric src pos password len"
| "generate_password src pos password ALPHA len = generate_alpha src pos password len"
| "generate_password src pos password MIXED len = generate_mixed src pos password len"
| "generate_password src pos password SECURE len = generate_secure src pos password len"
| "generate_password src pos password UNAMBIGUOUS len =
     generate_unambiguous src pos password len"

section \<open>C library functions used by both programs\<close>

text \<open>
  \<^verbatim>\<open>isdigit\<close>, \<^verbatim>\<open>isspace\<close>, \<^verbatim>\<open>isupper\<close> and \<^verbatim>\<open>tolower\<close> in the C locale, \<^verbatim>\<open>strchr\<close> and
  \<^verbatim>\<open>atoi\<close>, after the C standard. \<^verbatim>\<open>atoi\<close> always returns an \<^verbatim>\<open>int\<close> (32 bits here). The
  standard leaves open which one when the value of the text does not fit; what the C library
  at hand returns there is the parameter \<open>overflow\<close> of the model, a function from the
  value of the text to the \<^verbatim>\<open>int\<close> returned.
\<close>

definition isdigit :: "char \<Rightarrow> bool" where
  "isdigit c = (48 \<le> (of_char c :: nat) \<and> (of_char c :: nat) \<le> 57)"

definition isspace :: "char \<Rightarrow> bool" where
  "isspace c = ((of_char c :: nat) = 32 \<or> (9 \<le> (of_char c :: nat) \<and> (of_char c :: nat) \<le> 13))"

definition isupper :: "char \<Rightarrow> bool" where
  "isupper c = (65 \<le> (of_char c :: nat) \<and> (of_char c :: nat) \<le> 90)"

definition tolower :: "char \<Rightarrow> char" where
  "tolower c = (if isupper c then char_of ((of_char c :: nat) + 32) else c)"

text \<open>
  \<open>strchr s c\<close> is the offset of the first occurrence of \<open>c\<close> in the string, \<open>None\<close> for
  the null pointer. The terminator is part of the string, so NUL is always found.
\<close>

fun strchr :: "char list \<Rightarrow> char \<Rightarrow> nat option" where
  "strchr [] c = (if c = NUL then Some 0 else None)"
| "strchr (x # xs) c =
     (if x = c then Some 0
      else if x = NUL then None
      else map_option Suc (strchr xs c))"

definition INT_MAX :: int where
  "INT_MAX = 2147483647"

definition INT_MIN :: int where
  "INT_MIN = - 2147483648"

fun atoi_digits :: "int \<Rightarrow> char list \<Rightarrow> int" where
  "atoi_digits acc [] = acc"
| "atoi_digits acc (c # cs) =
     (if isdigit c then atoi_digits (acc * 10 + (of_char c - 48)) cs else acc)"

definition atoi :: "(int \<Rightarrow> int) \<Rightarrow> char list \<Rightarrow> int" where
  "atoi overflow nptr =
     (let t = dropWhile isspace nptr;
          n = (case t of
                 [] \<Rightarrow> 0
               | c # r \<Rightarrow>
                   if c = CHR ''-'' then - atoi_digits 0 r
                   else if c = CHR ''+'' then atoi_digits 0 r
                   else atoi_digits 0 t)
      in if INT_MIN \<le> n \<and> n \<le> INT_MAX then n else overflow n)"

text \<open>
  One such library: glibc on a 64-bit platform, where \<^verbatim>\<open>atoi\<close> is \<^verbatim>\<open>(int) strtol(nptr, NULL, 10)\<close>.
  \<^verbatim>\<open>strtol\<close> stops at the bounds of \<^verbatim>\<open>long\<close> (64 bits), and the conversion to \<^verbatim>\<open>int\<close> keeps
  the low 32 bits.
\<close>

definition LONG_MAX :: int where
  "LONG_MAX = 9223372036854775807"

definition LONG_MIN :: int where
  "LONG_MIN = - 9223372036854775808"

definition glibc_overflow :: "int \<Rightarrow> int" where
  "glibc_overflow n =
     (let l = (if n > LONG_MAX then LONG_MAX else if n < LONG_MIN then LONG_MIN else n)
      in (l + 2147483648) mod 4294967296 - 2147483648)"

section \<open>libs/protocol/protocol.h: constants and messages\<close>

definition BUFFER_SIZE :: nat where
  "BUFFER_SIZE = 1024"

definition MAX_PASSWORD_LENGTH :: nat where
  "MAX_PASSWORD_LENGTH = 32"

definition MIN_PASSWORD_LENGTH :: nat where
  "MIN_PASSWORD_LENGTH = 6"

text \<open>
  \<^verbatim>\<open>struct { char type; char length[BUFFER_SIZE]; }\<close> and
  \<^verbatim>\<open>struct { char password[MAX_PASSWORD_LENGTH + 1]; }\<close>. The fields are named
  \<open>type_req\<close>, \<open>length_req\<close> and \<open>password_resp\<close> here. Both structures hold
  \<^verbatim>\<open>char\<close> members only, so their memory image is the members' bytes in order, without
  padding.
\<close>

record PasswordRequest =
  type_req :: char
  length_req :: "char list"

record PasswordResponse =
  password_resp :: "char list"

definition sizeof_PasswordRequest :: nat where
  "sizeof_PasswordRequest = 1 + BUFFER_SIZE"

definition sizeof_PasswordResponse :: nat where
  "sizeof_PasswordResponse = MAX_PASSWORD_LENGTH + 1"

definition request_bytes :: "PasswordRequest \<Rightarrow> char list" where
  "request_bytes r = type_req r # length_req r"

definition request_of_bytes :: "char list \<Rightarrow> PasswordRequest" where
  "request_of_bytes bs = \<lparr>type_req = bs ! 0, length_req = take BUFFER_SIZE (drop 1 bs)\<rparr>"

definition response_bytes :: "PasswordResponse \<Rightarrow> char list" where
  "response_bytes r = password_resp r"

definition response_of_bytes :: "char list \<Rightarrow> PasswordResponse" where
  "response_of_bytes bs = \<lparr>password_resp = take (MAX_PASSWORD_LENGTH + 1) bs\<rparr>"

section \<open>The datagram transport\<close>

text \<open>
  What \<^verbatim>\<open>recvfrom\<close> finds on the socket is an input of the model: an error, or a datagram.
  A datagram is copied over the front of the destination object, cut to the object's size;
  the bytes behind it keep what they held. The result is the number of bytes copied, or
  \<open>-1\<close>. The value \<^verbatim>\<open>sendto\<close> returns is an input of the model as well.
\<close>

datatype recv_result = RecvError | Datagram "char list"

fun recvfrom :: "recv_result \<Rightarrow> char list \<Rightarrow> int \<times> char list" where
  "recvfrom RecvError object = (- 1, object)"
| "recvfrom (Datagram d) object =
     (int (min (length d) (length object)),
      take (length object) d @ drop (length d) object)"

section \<open>UDP\_server.c\<close>

text \<open>The \<^verbatim>\<open>switch (tolower(request->type))\<close> of \<^verbatim>\<open>handle_password_request\<close>.\<close>

definition password_type_switch :: "char \<Rightarrow> PasswordType" where
  "password_type_switch t =
     (if tolower t = CHR ''n'' then NUMERIC
      else if tolower t = CHR ''a'' then ALPHA
      else if tolower t = CHR ''m'' then MIXED
      else if tolower t = CHR ''s'' then SECURE
      else if tolower t = CHR ''u'' then UNAMBIGUOUS
      else NUMERIC)"

text \<open>
  \<open>handle_password_request\<close> calls \<^verbatim>\<open>atoi(request->length)\<close> on a field that came from the
  network and need not hold a NUL. \<open>behind\<close> is what lies behind the field in memory, up to
  the first NUL there: \<^verbatim>\<open>atoi\<close> reads on into it when the field ends in digits.
\<close>

definition handle_password_request ::
  "(int \<Rightarrow> int) \<Rightarrow> char list \<Rightarrow> rand_source \<Rightarrow> nat \<Rightarrow> PasswordRequest \<Rightarrow> PasswordResponse
     \<Rightarrow> error + (PasswordResponse \<times> nat)" where
  "handle_password_request overflow behind src pos request response =
     (let numerical_length = atoi overflow (length_req request @ behind)
      in case generate_password src pos (password_resp response)
                (password_type_switch (type_req request)) numerical_length of
           Inl e \<Rightarrow> Inl e
         | Inr (pw, pos') \<Rightarrow> Inr (response\<lparr>password_resp := pw\<rparr>, pos'))"

text \<open>
  \<open>send_response\<close> hands the response's image to \<^verbatim>\<open>sendto\<close>; \<open>sent\<close> is the value
  \<^verbatim>\<open>sendto\<close> returns. \<open>Inr\<close> carries the datagram that went out (the function returns
  \<^verbatim>\<open>true\<close>), \<open>Inl\<close> stands for \<^verbatim>\<open>false\<close>.
\<close>

definition send_response :: "int \<Rightarrow> PasswordResponse \<Rightarrow> error + char list" where
  "send_response sent response_msg =
     (if sent \<noteq> int sizeof_PasswordResponse then Inl TransportFailure
      else Inr (response_bytes response_msg))"

definition receive_request :: "recv_result \<Rightarrow> PasswordRequest \<Rightarrow> error + PasswordRequest" where
  "receive_request incoming request_msg =
     (case recvfrom incoming (request_bytes request_msg) of
        (rcv_msg_size, bytes) \<Rightarrow>
          if rcv_msg_size < 0 then Inl TransportFailure
          else Inr (request_of_bytes bytes))"

text \<open>
  One turn of the \<^verbatim>\<open>while (true)\<close> loop of the server's \<^verbatim>\<open>main\<close>. The loop declares
  \<^verbatim>\<open>request\<close> and \<^verbatim>\<open>response\<close> without initialising them: what they hold at the start of
  a turn, and what lies behind \<^verbatim>\<open>request\<close> in memory, comes with the turn's other inputs.
\<close>

record server_turn =
  turn_incoming :: recv_result
  turn_sendto :: int
  turn_request :: PasswordRequest
  turn_behind :: "char list"
  turn_response :: PasswordResponse

text \<open>
  The loop over a finite sequence of turns. The result is the datagrams sent and how the
  run ended: \<open>None\<close> when the server is still listening, \<open>Some e\<close> when it stopped.
\<close>

fun server_main ::
  "(int \<Rightarrow> int) \<Rightarrow> rand_source \<Rightarrow> nat \<Rightarrow> server_turn list
     \<Rightarrow> char list list \<times> error option" where
  "server_main overflow src pos [] = ([], None)"
| "server_main overflow src pos (t # ts) =
     (case receive_request (turn_incoming t) (turn_request t) of
        Inl e \<Rightarrow> ([], Some e)
      | Inr request \<Rightarrow>
          (case handle_password_request overflow (turn_behind t) src pos request
                  (turn_response t) of
             Inl e \<Rightarrow> ([], Some e)
           | Inr (response, pos') \<Rightarrow>
               (case send_response (turn_sendto t) response of
                  Inl e \<Rightarrow> ([response_bytes response], Some e)
                | Inr d \<Rightarrow>
                    (case server_main overflow src pos' ts of
                       (ds, r) \<Rightarrow> (d # ds, r)))))"

section \<open>libs/password/password.c (client): checks on the request\<close>

definition keep_generating :: "char \<Rightarrow> char \<Rightarrow> bool" where
  "keep_generating t type_for_ending = (tolower t \<noteq> tolower type_for_ending)"

definition control_type :: "char list \<Rightarrow> char \<Rightarrow> bool" where
  "control_type allowed_type t = (strchr allowed_type t \<noteq> None)"

text \<open>
  The loop of \<open>control_length\<close>: \<open>False\<close> is the early \<^verbatim>\<open>return false\<close>, \<open>True\<close> is
  reaching the terminator.
\<close>

fun control_length_loop :: "char list \<Rightarrow> bool" where
  "control_length_loop [] = True"
| "control_length_loop (c # cs) =
     (if c = NUL then True
      else if \<not> isdigit c then False
      else control_length_loop cs)"

definition control_length :: "(int \<Rightarrow> int) \<Rightarrow> char list \<Rightarrow> int \<Rightarrow> int \<Rightarrow> bool" where
  "control_length overflow len min_length max_length =
     (if \<not> control_length_loop len then False
      else (let numerical_length = atoi overflow len
            in numerical_length \<ge> min_length \<and> numerical_length \<le> max_length))"

section \<open>UDP\_client.c\<close>

text \<open>
  What \<^verbatim>\<open>fgets\<close> followed by \<^verbatim>\<open>sscanf(input, " %c %s %s", ...)\<close> yields is an input of the
  model: the items assigned, in order. With this format either the input ends before the
  first item (\<^verbatim>\<open>EOF\<close>, nothing assigned) or one, two or three items are assigned. The third
  item goes back into \<^verbatim>\<open>input\<close> and is not used again.
\<close>

datatype scanned =
    NoItem
  | OneItem char
  | TwoItems char string
  | ThreeItems char string string

fun arguments_of :: "scanned \<Rightarrow> int" where
  "arguments_of NoItem = - 1"
| "arguments_of (OneItem t) = 1"
| "arguments_of (TwoItems t l) = 2"
| "arguments_of (ThreeItems t l x) = 3"

text \<open>Writing a string and its terminator at the front of a character array.\<close>

definition store_string :: "char list \<Rightarrow> string \<Rightarrow> error + char list" where
  "store_string buf s =
     (if length s < length buf then Inr (s @ NUL # drop (Suc (length s)) buf)
      else Inl (OutOfBounds (int (length buf))))"

fun sscanf_assign :: "scanned \<Rightarrow> PasswordRequest \<Rightarrow> error + PasswordRequest" where
  "sscanf_assign NoItem r = Inr r"
| "sscanf_assign (OneItem t) r = Inr (r\<lparr>type_req := t\<rparr>)"
| "sscanf_assign (TwoItems t l) r =
     (case store_string (length_req r) l of
        Inl e \<Rightarrow> Inl e
      | Inr b \<Rightarrow> Inr (r\<lparr>type_req := t, length_req := b\<rparr>))"
| "sscanf_assign (ThreeItems t l x) r =
     (case store_string (length_req r) l of
        Inl e \<Rightarrow> Inl e
      | Inr b \<Rightarrow> Inr (r\<lparr>type_req := t, length_req := b\<rparr>))"

text \<open>The part of \<open>handle_user_input\<close> after its \<^verbatim>\<open>do ... while\<close> loop.\<close>

definition check_user_input ::
  "(int \<Rightarrow> int) \<Rightarrow> int \<Rightarrow> PasswordRequest \<Rightarrow> error + (bool \<times> PasswordRequest)" where
  "check_user_input overflow arguments r =
     (case (if arguments = 1 then
              (case store_string (length_req r) ''8'' of
                 Inl e \<Rightarrow> Inl e
               | Inr b \<Rightarrow> Inr (Some (r\<lparr>length_req := b\<rparr>)))
            else if arguments \<noteq> 2 then Inr None
            else Inr (Some r)) of
        Inl e \<Rightarrow> Inl e
      | Inr None \<Rightarrow> Inr (False, r)
      | Inr (Some r') \<Rightarrow>
          if \<not> control_type ''namsuq'' (type_req r') then Inr (False, r')
          else if \<not> control_length overflow (length_req r') (int MIN_PASSWORD_LENGTH)
                      (int MAX_PASSWORD_LENGTH) then Inr (False, r')
          else Inr (True, r'))"

text \<open>
  \<open>handle_user_input\<close> reads lines until one does not ask for help. It returns the
  function's \<^verbatim>\<open>bool\<close>, the request as it leaves it, and the lines not yet read. Two
  results stand for no \<^verbatim>\<open>return\<close> of the function: \<open>Inl InputExhausted\<close> says that the
  finite sequence of lines given to the model has been used up (the program would wait for
  the next line), and \<open>Inl (OutOfBounds i)\<close> that an item did not fit the length field
  (\<^verbatim>\<open>fgets\<close> reads at most \<open>BUFFER_SIZE - 1\<close> characters, so no item of the program does).
  The length field holds a NUL at its last index whenever the checks run.
\<close>

fun handle_user_input ::
  "(int \<Rightarrow> int) \<Rightarrow> scanned list \<Rightarrow> PasswordRequest
     \<Rightarrow> error + (bool \<times> PasswordRequest \<times> scanned list)" where
  "handle_user_input overflow [] r = Inl InputExhausted"
| "handle_user_input overflow (line # rest) r =
     (case sscanf_assign line r of
        Inl e \<Rightarrow> Inl e
      | Inr r1 \<Rightarrow>
          (case store (length_req r1) (int BUFFER_SIZE - 1) NUL of
             Inl e \<Rightarrow> Inl e
           | Inr b \<Rightarrow>
               if tolower (type_req (r1\<lparr>length_req := b\<rparr>)) = CHR ''h''
               then handle_user_input overflow rest (r1\<lparr>length_req := b\<rparr>)
               else (case check_user_input overflow (arguments_of line)
                            (r1\<lparr>length_req := b\<rparr>) of
                       Inl e \<Rightarrow> Inl e
                     | Inr (ok, r2) \<Rightarrow> Inr (ok, r2, rest))))"

definition send_request :: "int \<Rightarrow> PasswordRequest \<Rightarrow> error + char list" where
  "send_request sent password_request =
     (if sent \<noteq> int sizeof_PasswordRequest then Inl TransportFailure
      else Inr (request_bytes password_request))"

definition receive_response ::
  "recv_result \<Rightarrow> PasswordResponse \<Rightarrow> error + PasswordResponse" where
  "receive_response incoming response_msg =
     (case recvfrom incoming (response_bytes response_msg) of
        (rcv_msg_size, bytes) \<Rightarrow>
          if rcv_msg_size < 0 then Inl TransportFailure
          else Inr (response_of_bytes bytes))"

datatype exit_status = EXIT_SUCCESS | EXIT_FAILURE | Stopped error

text \<open>
  The \<^verbatim>\<open>while (true)\<close> loop of the client's \<^verbatim>\<open>main\<close>. \<open>net n\<close> gives what the transport
  does at the \<open>n\<close>-th exchange: the value of \<^verbatim>\<open>sendto\<close> and what \<^verbatim>\<open>recvfrom\<close> finds.
  \<open>sent\<close> lists the images handed to \<^verbatim>\<open>sendto\<close> so far; the result is that list at the end
  of the run, and how the run ended. \<open>Stopped e\<close> is no exit of the program: it marks where
  the model's run ends because \<open>handle_user_input\<close> did not return (see there).
\<close>

function client_main ::
  "(int \<Rightarrow> int) \<Rightarrow> (nat \<Rightarrow> int \<times> recv_result) \<Rightarrow> scanned list \<Rightarrow> PasswordRequest
     \<Rightarrow> PasswordResponse \<Rightarrow> char list list \<Rightarrow> char list list \<times> exit_status" where
  "client_main overflow net lines password_request response_msg sent =
     (case handle_user_input overflow lines password_request of
        Inl e \<Rightarrow> (sent, Stopped e)
      | Inr (ok, r, rest) \<Rightarrow>
          if \<not> ok then client_main overflow net rest r response_msg sent
          else if \<not> keep_generating (type_req r) (CHR ''q'') then (sent, EXIT_SUCCESS)
          else (case send_request (fst (net (length sent))) r of
                  Inl e \<Rightarrow> (sent @ [request_bytes r], EXIT_FAILURE)
                | Inr d \<Rightarrow>
                    (case receive_response (snd (net (length sent))) response_msg of
                       Inl e \<Rightarrow> (sent @ [d], EXIT_FAILURE)
                     | Inr response_msg' \<Rightarrow>
                         client_main overflow net rest r response_msg' (sent @ [d]))))"
  by pat_completeness auto
termination
proof -
  have shorter: "length rest < length lines"
    if "handle_user_input overflow lines r = Inr (ok, r', rest)"
    for overflow lines r ok r' rest
    using that
  proof (induction lines arbitrary: r)
    case Nil
    then show ?case by simp
  next
    case (Cons line lines)
    then show ?case
      by (fastforce split: sum.splits if_splits prod.splits)
  qed
  show ?thesis
    by (relation
          "measure (\<lambda>(overflow, net, lines, password_request, response_msg, sent). length lines)")
       (auto dest: shorter)
qed

declare client_main.simps [simp del]

section \<open>Notions of the specification\<close>

text \<open>
  The character set of each class, written after the table of the specification's
  section 4.1 (not after the code): Unambiguous is Secure's alphabet without the
  visually confusable characters.
\<close>

definition ambiguous_chars :: string where
  "ambiguous_chars = ''0Oo1lIi2Zz5Ss8B''"

definition digit_chars :: string where
  "digit_chars = ''0123456789''"

definition lowercase_chars :: string where
  "lowercase_chars = ''abcdefghijklmnopqrstuvwxyz''"

definition uppercase_chars :: string where
  "uppercase_chars = ''ABCDEFGHIJKLMNOPQRSTUVWXYZ''"

definition symbol_chars :: string where
  "symbol_chars = ''!@#$%^&*()''"

fun charsetFor :: "PasswordType \<Rightarrow> string" where
  "charsetFor NUMERIC = digit_chars"
| "charsetFor ALPHA = lowercase_chars"
| "charsetFor MIXED = digit_chars @ lowercase_chars"
| "charsetFor SECURE = lowercase_chars @ uppercase_chars @ digit_chars @ symbol_chars"
| "charsetFor UNAMBIGUOUS =
     filter (\<lambda>c. c \<notin> set ambiguous_chars)
       (lowercase_chars @ uppercase_chars @ digit_chars @ symbol_chars)"

text \<open>
  The character that \<open>mixed_char\<close> yields, tabulated over every pair of values of its two
  draws in one full period: the first draw matters modulo 2 only, the second modulo
  130 (the least common multiple of 26 and 10). Entry \<open>i\<close> belongs to the first draw
  \<open>i div 130\<close> and the second draw \<open>i mod 130\<close>.
\<close>

definition mixed_outcomes :: "char list" where
  "mixed_outcomes =
     map (\<lambda>i. fst (mixed_char (\<lambda>n. if n = 0 then i div 130 else i mod 130) 0)) [0..<260]"

text \<open>The number that a string of decimal digits denotes.\<close>

definition decimal_value :: "string \<Rightarrow> int" where
  "decimal_value s = foldl (\<lambda>a c. a * 10 + (of_char c - 48)) 0 s"

section \<open>The generation loop\<close>

text \<open>
  When every index up to \<open>len\<close> lies inside the array, the loop ends normally: it has
  taken \<open>k\<close> values from the random source for each position, position \<open>j\<close> holds the
  character of its own draw, and every other position holds what it held before.
\<close>

lemma fill_loop_result:
  "(\<forall>p. snd (draw src p) = p + k) \<Longrightarrow> 0 \<le> i \<Longrightarrow> len \<le> int (length password) \<Longrightarrow>
   \<exists>password'. fill_loop draw src pos password i len = Inr (password', pos + k * nat (len - i))
     \<and> length password' = length password
     \<and> (\<forall>j < length password. password' ! j =
           (if nat i \<le> j \<and> int j < len then fst (draw src (pos + k * (j - nat i)))
            else password ! j))"
proof (induction draw src pos password i len rule: fill_loop.induct)
  case (1 draw src pos password i len)
  show ?case
  proof (cases "i < len")
    case False
    then have "\<not> (nat i \<le> j \<and> int j < len)" for j
      using "1.prems"(2) by linarith
    then show ?thesis
      using False by (auto simp add: fill_loop.simps [of draw src pos password i len])
  next
    case True
    obtain c pos' where d: "draw src pos = (c, pos')"
      by (cases "draw src pos")
    have pos': "pos' = pos + k"
      using "1.prems"(1) d by (metis snd_conv)
    have c: "c = fst (draw src pos)"
      using d by simp
    have inb: "0 \<le> i \<and> i < int (length password)"
      using True "1.prems" by simp
    then have st: "store password i c = Inr (password[nat i := c])"
      by (simp add: store_def)
    have "\<exists>password'. fill_loop draw src pos' (password[nat i := c]) (i + 1) len
              = Inr (password', pos' + k * nat (len - (i + 1)))
        \<and> length password' = length (password[nat i := c])
        \<and> (\<forall>j < length (password[nat i := c]). password' ! j =
              (if nat (i + 1) \<le> j \<and> int j < len
               then fst (draw src (pos' + k * (j - nat (i + 1))))
               else (password[nat i := c]) ! j))"
      using "1.IH" [OF True d [symmetric] st] "1.prems" by simp
    then obtain password' where
      run: "fill_loop draw src pos' (password[nat i := c]) (i + 1) len
              = Inr (password', pos' + k * nat (len - (i + 1)))"
      and len': "length password' = length password"
      and at: "\<And>j. j < length password \<Longrightarrow> password' ! j =
              (if nat (i + 1) \<le> j \<and> int j < len
               then fst (draw src (pos' + k * (j - nat (i + 1))))
               else (password[nat i := c]) ! j)"
      by auto
    have cnt: "pos' + k * nat (len - (i + 1)) = pos + k * nat (len - i)"
    proof -
      have "nat (len - i) = Suc (nat (len - (i + 1)))"
        using True by simp
      then show ?thesis by (simp add: pos')
    qed
    have unfold: "fill_loop draw src pos password i len = Inr (password', pos + k * nat (len - i))"
      using True d st run cnt by (simp add: fill_loop.simps [of draw src pos password i len])
    have chars: "password' ! j =
           (if nat i \<le> j \<and> int j < len then fst (draw src (pos + k * (j - nat i)))
            else password ! j)" if j: "j < length password" for j
    proof (cases "j = nat i")
      case True
      have "nat (i + 1) = Suc (nat i)" and "nat i < length password" and "int (nat i) < len"
        using inb \<open>i < len\<close> by arith+
      then show ?thesis
        using at [OF j] True c by (simp add: pos')
    next
      case False
      show ?thesis
      proof (cases "nat i < j \<and> int j < len")
        case True
        then have "j - nat i = Suc (j - nat (i + 1))"
          using inb by arith
        then have "pos' + k * (j - nat (i + 1)) = pos + k * (j - nat i)"
          by (simp add: pos')
        moreover have "nat (i + 1) \<le> j"
          using True inb by arith
        ultimately show ?thesis
          using at [OF j] True by simp
      next
        case no: False
        have "\<not> (nat (i + 1) \<le> j \<and> int j < len)"
          using no False inb by arith
        then have a1: "(nat (i + 1) \<le> j \<and> int j < len) = False"
          by blast
        have "\<not> (nat i \<le> j \<and> int j < len)"
          using no False by arith
        then have a2: "(nat i \<le> j \<and> int j < len) = False"
          by blast
        have "password' ! j = (password[nat i := c]) ! j"
          using at [OF j] by (simp only: a1 if_False)
        also have "\<dots> = password ! j"
          using False by simp
        finally show ?thesis
          by (simp only: a2 if_False)
      qed
    qed
    show ?thesis
      using unfold len' chars by blast
  qed
qed

lemma fill_and_terminate_result:
  assumes step: "\<forall>p. snd (draw src p) = p + k"
    and lo: "0 \<le> len" and hi: "len < int (length password)"
  shows "\<exists>password'. fill_and_terminate draw src pos password len
            = Inr (password', pos + k * nat len)
     \<and> length password' = length password
     \<and> (\<forall>j < length password. password' ! j =
           (if int j < len then fst (draw src (pos + k * j))
            else if int j = len then NUL
            else password ! j))"
proof -
  obtain filled where
    run: "fill_loop draw src pos password 0 len = Inr (filled, pos + k * nat len)"
    and len': "length filled = length password"
    and at: "\<And>j. j < length password \<Longrightarrow>
               filled ! j = (if int j < len then fst (draw src (pos + k * j)) else password ! j)"
    using fill_loop_result [of draw src k 0 len password pos] step hi by auto
  have st: "store filled len NUL = Inr (filled[nat len := NUL])"
    using lo hi len' by (simp add: store_def)
  have "fill_and_terminate draw src pos password len
          = Inr (filled[nat len := NUL], pos + k * nat len)"
    by (simp add: fill_and_terminate_def run st)
  moreover have "length (filled[nat len := NUL]) = length password"
    by (simp add: len')
  moreover have "(filled[nat len := NUL]) ! j =
           (if int j < len then fst (draw src (pos + k * j))
            else if int j = len then NUL
            else password ! j)" if j: "j < length password" for j
  proof (cases "j = nat len")
    case True
    then show ?thesis using lo j len' by simp
  next
    case False
    then have "int j \<noteq> len" using lo by auto
    then show ?thesis
      using False at [OF j] by simp
  qed
  ultimately show ?thesis by blast
qed

lemma c_str_prefix:
  assumes "n < length xs" and "xs ! n = NUL" and "\<forall>j < n. xs ! j \<noteq> NUL"
  shows "c_str xs = take n xs"
  unfolding c_str_def
  by (rule takeWhile_eq_take_P_nth) (use assms in auto)

lemma fill_and_terminate_string:
  assumes step: "\<forall>p. snd (draw src p) = p + k"
    and draws: "\<forall>p. fst (draw src p) \<in> S" and nul: "NUL \<notin> S"
    and lo: "0 \<le> len" and hi: "len < int (length password)"
  shows "\<exists>password' pos'. fill_and_terminate draw src pos password len = Inr (password', pos')
     \<and> length password' = length password
     \<and> password' ! nat len = NUL
     \<and> c_str password' = take (nat len) password'
     \<and> length (c_str password') = nat len
     \<and> set (c_str password') \<subseteq> S
     \<and> (\<forall>j < length password. len < int j \<longrightarrow> password' ! j = password ! j)"
proof -
  obtain password' where
    run: "fill_and_terminate draw src pos password len = Inr (password', pos + k * nat len)"
    and len': "length password' = length password"
    and at: "\<And>j. j < length password \<Longrightarrow> password' ! j =
           (if int j < len then fst (draw src (pos + k * j))
            else if int j = len then NUL
            else password ! j)"
    using fill_and_terminate_result [of draw src k len password pos] step lo hi by auto
  have n: "nat len < length password'"
    using lo hi len' by simp
  have fin: "password' ! nat len = NUL"
    using at [of "nat len"] n len' lo by simp
  have body: "password' ! j \<in> S" if "j < nat len" for j
  proof -
    have "int j < len" and "j < length password"
      using that n len' by simp_all
    then show ?thesis
      using at [of j] draws by simp
  qed
  then have nonul: "\<forall>j < nat len. password' ! j \<noteq> NUL"
    using nul by metis
  have str: "c_str password' = take (nat len) password'"
    by (rule c_str_prefix [OF n fin nonul])
  have "set (take (nat len) password') \<subseteq> S"
  proof
    fix x assume "x \<in> set (take (nat len) password')"
    then obtain j where "j < nat len" "x = password' ! j"
      using n by (auto simp: in_set_conv_nth)
    then show "x \<in> S" using body by simp
  qed
  moreover have "\<forall>j < length password. len < int j \<longrightarrow> password' ! j = password ! j"
    using at by simp
  moreover have "length (take (nat len) password') = nat len"
    using n by simp
  ultimately show ?thesis
    using run len' fin str by auto
qed

text \<open>
  When \<open>len\<close> is not below the array's size, the first store behind the array's last
  element stops the run.
\<close>

lemma fill_loop_overrun:
  "0 \<le> i \<Longrightarrow> i \<le> int (length password) \<Longrightarrow> int (length password) < len \<Longrightarrow>
   fill_loop draw src pos password i len = Inl (OutOfBounds (int (length password)))"
proof (induction draw src pos password i len rule: fill_loop.induct)
  case (1 draw src pos password i len)
  obtain c pos' where d: "draw src pos = (c, pos')"
    by (cases "draw src pos")
  have lt: "i < len"
    using "1.prems" by simp
  show ?case
  proof (cases "i = int (length password)")
    case True
    then have "store password i c = Inl (OutOfBounds (int (length password)))"
      by (simp add: store_def)
    then show ?thesis
      using lt d by (simp add: fill_loop.simps [of draw src pos password i len])
  next
    case False
    then have inb: "0 \<le> i \<and> i < int (length password)"
      using "1.prems" by simp
    then have st: "store password i c = Inr (password[nat i := c])"
      by (simp add: store_def)
    have "fill_loop draw src pos' (password[nat i := c]) (i + 1) len
            = Inl (OutOfBounds (int (length (password[nat i := c]))))"
      using "1.IH" [OF lt d [symmetric] st] inb "1.prems" by simp
    then show ?thesis
      using lt d st by (simp add: fill_loop.simps [of draw src pos password i len])
  qed
qed

lemma fill_and_terminate_overrun:
  assumes step: "\<forall>p. snd (draw src p) = p + k"
    and over: "int (length password) \<le> len"
  shows "fill_and_terminate draw src pos password len
           = Inl (OutOfBounds (int (length password)))"
proof (cases "int (length password) = len")
  case True
  obtain filled where
    run: "fill_loop draw src pos password 0 len = Inr (filled, pos + k * nat len)"
    and len': "length filled = length password"
    using fill_loop_result [of draw src k 0 len password pos] step True by auto
  have "store filled len NUL = Inl (OutOfBounds len)"
    using True len' by (simp add: store_def)
  then show ?thesis
    using True by (simp add: fill_and_terminate_def run)
next
  case False
  then have "fill_loop draw src pos password 0 len = Inl (OutOfBounds (int (length password)))"
    using over fill_loop_overrun [of 0 password len draw src pos] by simp
  then show ?thesis
    by (simp add: fill_and_terminate_def)
qed

section \<open>The draws\<close>

text \<open>How many values each drawing expression takes, and where its character lies.\<close>

lemma numeric_step: "snd (numeric_char src p) = p + 1"
  by (simp add: numeric_char_def rand_def)

lemma alpha_step: "snd (alpha_char src p) = p + 1"
  by (simp add: alpha_char_def rand_def)

lemma mixed_step: "snd (mixed_char src p) = p + 2"
  by (simp add: mixed_char_def rand_def numeric_step alpha_step)

lemma charset_step: "snd (charset_char cs src p) = p + 1"
  by (simp add: charset_char_def rand_def)

lemma numeric_in: "fst (numeric_char src p) \<in> set digit_chars"
proof -
  have "list_all (\<lambda>k. char_of (of_char CHR ''0'' + k :: nat) \<in> set digit_chars) [0..<10]"
    by code_simp
  moreover have "src p mod 10 < 10" by simp
  ultimately show ?thesis
    by (simp add: numeric_char_def rand_def list_all_iff)
qed

lemma alpha_in: "fst (alpha_char src p) \<in> set lowercase_chars"
proof -
  have "list_all (\<lambda>k. char_of (of_char CHR ''a'' + k :: nat) \<in> set lowercase_chars) [0..<26]"
    by code_simp
  moreover have "src p mod 26 < 26" by simp
  ultimately show ?thesis
    by (simp add: alpha_char_def rand_def list_all_iff)
qed

lemma mixed_in: "fst (mixed_char src p) \<in> set (digit_chars @ lowercase_chars)"
  using numeric_in [of src "Suc p"] alpha_in [of src "Suc p"]
  by (simp add: mixed_char_def rand_def)

lemma charset_in: "cs \<noteq> [] \<Longrightarrow> fst (charset_char cs src p) \<in> set cs"
  by (simp add: charset_char_def rand_def sizeof_literal_def)

lemma secure_charset_spec: "secure_charset = charsetFor SECURE"
  by code_simp

lemma unambiguous_charset_spec: "unambiguous_charset = charsetFor UNAMBIGUOUS"
  by code_simp

lemma charsetFor_no_NUL: "NUL \<notin> set (charsetFor c)"
proof -
  have "list_all (\<lambda>c. list_all (\<lambda>x. x \<noteq> NUL) (charsetFor c))
          [NUMERIC, ALPHA, MIXED, SECURE, UNAMBIGUOUS]"
    by code_simp
  then show ?thesis
    by (cases c) (auto simp add: list_all_iff simp del: charsetFor.simps)
qed


text \<open>
  The two-stage draw of class Mixed, and its table over one period of the two draws.
\<close>

lemma mixed_char_eq:
  "fst (mixed_char src p) =
     (if src p mod 2 \<noteq> 0 then char_of (of_char CHR ''a'' + src (Suc p) mod 26 :: nat)
      else char_of (of_char CHR ''0'' + src (Suc p) mod 10 :: nat))"
  by (simp add: mixed_char_def alpha_char_def numeric_char_def rand_def)

lemma mixed_outcomes_nth:
  "i < 260 \<Longrightarrow>
   mixed_outcomes ! i = fst (mixed_char (\<lambda>n. if n = 0 then i div 130 else i mod 130) 0)"
proof -
  assume i: "i < 260"
  then have n: "[0..<260] ! i = i"
    by simp
  have "mixed_outcomes ! i
          = (\<lambda>i. fst (mixed_char (\<lambda>n. if n = 0 then i div 130 else i mod 130) 0))
              ([0..<260] ! i)"
    unfolding mixed_outcomes_def by (rule nth_map) (simp add: i)
  then show ?thesis
    by (simp only: n)
qed

lemma mixed_char_table:
  "fst (mixed_char src p) = mixed_outcomes ! (src p mod 2 * 130 + src (Suc p) mod 130)"
proof -
  define a where "a = src p mod 2"
  define b where "b = src (Suc p) mod 130"
  have a: "a < 2" and b: "b < 130"
    by (simp_all add: a_def b_def)
  then have i: "a * 130 + b < 260"
    by linarith
  have d: "(a * 130 + b) div 130 = a" and m: "(a * 130 + b) mod 130 = b"
    using b by simp_all
  have a2: "a mod 2 = src p mod 2"
    by (simp add: a_def)
  have m26: "b mod 26 = src (Suc p) mod 26"
    unfolding b_def by (rule mod_mod_cancel) simp
  have m10: "b mod 10 = src (Suc p) mod 10"
    unfolding b_def by (rule mod_mod_cancel) simp
  have "mixed_outcomes ! (a * 130 + b) = fst (mixed_char (\<lambda>n. if n = 0 then a else b) 0)"
    by (simp only: mixed_outcomes_nth [OF i] d m)
  also have "\<dots> = fst (mixed_char src p)"
    by (simp add: mixed_char_eq a2 m26 m10)
  finally show ?thesis
    by (simp add: a_def b_def)
qed

lemma mixed_outcomes_table:
  "mixed_outcomes = concat (replicate 13 digit_chars) @ concat (replicate 5 lowercase_chars)"
  by code_simp

lemma mixed_outcomes_letters: "map (count_list mixed_outcomes) lowercase_chars = replicate 26 5"
  unfolding mixed_outcomes_table by code_simp

lemma mixed_outcomes_digits: "map (count_list mixed_outcomes) digit_chars = replicate 10 13"
  unfolding mixed_outcomes_table by code_simp

lemma mixed_outcomes_length: "length mixed_outcomes = 260"
  by (simp add: mixed_outcomes_def)

section \<open>Every class at once\<close>

lemma generate_password_overrun:
  assumes "int (length password) \<le> len"
  shows "generate_password src pos password c len = Inl (OutOfBounds (int (length password)))"
proof (cases c)
  case NUMERIC
  then show ?thesis
    using fill_and_terminate_overrun [of numeric_char src 1 password len pos] assms
    by (simp add: generate_numeric_def numeric_step)
next
  case ALPHA
  then show ?thesis
    using fill_and_terminate_overrun [of alpha_char src 1 password len pos] assms
    by (simp add: generate_alpha_def alpha_step)
next
  case MIXED
  then show ?thesis
    using fill_and_terminate_overrun [of mixed_char src 2 password len pos] assms
    by (simp add: generate_mixed_def mixed_step)
next
  case SECURE
  then show ?thesis
    using fill_and_terminate_overrun [of "charset_char secure_charset" src 1 password len pos]
      assms
    by (simp add: generate_secure_def charset_step)
next
  case UNAMBIGUOUS
  then show ?thesis
    using fill_and_terminate_overrun
      [of "charset_char unambiguous_charset" src 1 password len pos] assms
    by (simp add: generate_unambiguous_def charset_step)
qed

lemma generate_password_string:
  assumes lo: "0 \<le> len" and hi: "len < int (length password)"
  shows "\<exists>password' pos'. generate_password src pos password c len = Inr (password', pos')
     \<and> length password' = length password
     \<and> password' ! nat len = NUL
     \<and> c_str password' = take (nat len) password'
     \<and> length (c_str password') = nat len
     \<and> set (c_str password') \<subseteq> set (charsetFor c)
     \<and> (\<forall>j < length password. len < int j \<longrightarrow> password' ! j = password ! j)"
proof (cases c)
  case NUMERIC
  show ?thesis
    using fill_and_terminate_string
      [of numeric_char src 1 "set (charsetFor c)" len password pos]
      lo hi charsetFor_no_NUL [of c] numeric_in [of src]
    by (simp add: NUMERIC generate_numeric_def numeric_step)
next
  case ALPHA
  show ?thesis
    using fill_and_terminate_string
      [of alpha_char src 1 "set (charsetFor c)" len password pos]
      lo hi charsetFor_no_NUL [of c] alpha_in [of src]
    by (simp add: ALPHA generate_alpha_def alpha_step)
next
  case MIXED
  show ?thesis
    using fill_and_terminate_string
      [of mixed_char src 2 "set (charsetFor c)" len password pos]
      lo hi charsetFor_no_NUL [of c] mixed_in [of src]
    by (simp add: MIXED generate_mixed_def mixed_step)
next
  case SECURE
  have "secure_charset \<noteq> []"
    by (simp add: secure_charset_def)
  then have "\<forall>p. fst (charset_char secure_charset src p) \<in> set (charsetFor c)"
    using charset_in [of secure_charset src] by (simp only: SECURE secure_charset_spec) simp
  then show ?thesis
    using fill_and_terminate_string
      [of "charset_char secure_charset" src 1 "set (charsetFor c)" len password pos]
      lo hi charsetFor_no_NUL [of c]
    by (simp add: SECURE generate_secure_def charset_step del: charsetFor.simps)
next
  case UNAMBIGUOUS
  have "unambiguous_charset \<noteq> []"
    by (simp add: unambiguous_charset_def)
  then have "\<forall>p. fst (charset_char unambiguous_charset src p) \<in> set (charsetFor c)"
    using charset_in [of unambiguous_charset src]
    by (simp only: UNAMBIGUOUS unambiguous_charset_spec) simp
  then show ?thesis
    using fill_and_terminate_string
      [of "charset_char unambiguous_charset" src 1 "set (charsetFor c)" len password pos]
      lo hi charsetFor_no_NUL [of c]
    by (simp add: UNAMBIGUOUS generate_unambiguous_def charset_step del: charsetFor.simps)
qed

section \<open>The claims about generation\<close>

text \<open>
  Claim C1. For every password class \<open>c\<close> and every length \<open>L\<close> from 6 to 32,
  \<open>generate_password\<close> on a 33-byte buffer ends normally and leaves a NUL-terminated
  string in it (NUL at index \<open>L\<close>) of length exactly \<open>L\<close>, every character of which
  belongs to \<open>charsetFor c\<close>; for class Unambiguous no character of the string is one of
  \<^verbatim>\<open>0 O o 1 l I i 2 Z z 5 S s 8 B\<close>. This holds for every random source and every
  previous content of the buffer.
\<close>

theorem generate_password_in_charset:
  assumes "int MIN_PASSWORD_LENGTH \<le> L" and "L \<le> int MAX_PASSWORD_LENGTH"
    and "length password = MAX_PASSWORD_LENGTH + 1"
  shows "\<exists>password' pos'. generate_password src pos password c L = Inr (password', pos')
     \<and> password' ! nat L = NUL
     \<and> length (c_str password') = nat L
     \<and> set (c_str password') \<subseteq> set (charsetFor c)
     \<and> (c = UNAMBIGUOUS \<longrightarrow> set (c_str password') \<inter> set ambiguous_chars = {})"
proof -
  have lo: "0 \<le> L" and hi: "L < int (length password)"
    using assms by (simp_all add: MIN_PASSWORD_LENGTH_def MAX_PASSWORD_LENGTH_def)
  obtain password' pos' where
    run: "generate_password src pos password c L = Inr (password', pos')"
    and fin: "password' ! nat L = NUL"
    and len: "length (c_str password') = nat L"
    and sub: "set (c_str password') \<subseteq> set (charsetFor c)"
    using generate_password_string [OF lo hi, of src pos c] by blast
  have "set (c_str password') \<inter> set ambiguous_chars = {}" if "c = UNAMBIGUOUS"
    using sub that by auto
  then show ?thesis
    using run fin len sub by blast
qed

theorem generate_password_in_charset_witness:
  "int MIN_PASSWORD_LENGTH \<le> 10 \<and> 10 \<le> int MAX_PASSWORD_LENGTH
   \<and> length (replicate 33 (CHR ''?'')) = MAX_PASSWORD_LENGTH + 1
   \<and> (\<exists>password' pos'.
         generate_password (\<lambda>n. n * n + 7) 0 (replicate 33 (CHR ''?'')) UNAMBIGUOUS 10
           = Inr (password', pos')
       \<and> password' ! nat 10 = NUL
       \<and> length (c_str password') = nat 10
       \<and> set (c_str password') \<subseteq> set (charsetFor UNAMBIGUOUS)
       \<and> set (c_str password') \<inter> set ambiguous_chars = {})"
  using generate_password_in_charset
    [where L = 10 and password = "replicate 33 (CHR ''?'')" and src = "\<lambda>n. n * n + 7"
       and pos = 0 and c = UNAMBIGUOUS]
  by (simp add: MIN_PASSWORD_LENGTH_def MAX_PASSWORD_LENGTH_def del: charsetFor.simps)

text \<open>
  Claim C10. For every class and every length \<open>L\<close> from 6 to 32, \<open>generate_password\<close>
  writes indices 0 to \<open>L\<close> of the caller's buffer only: the buffer keeps its size, index
  \<open>L\<close> holds the terminator, and every byte at an index above \<open>L\<close> is what the buffer held
  before the call.
\<close>

theorem generate_password_frame:
  assumes "int MIN_PASSWORD_LENGTH \<le> L" and "L \<le> int MAX_PASSWORD_LENGTH"
    and "length password = MAX_PASSWORD_LENGTH + 1"
  shows "\<exists>password' pos'. generate_password src pos password c L = Inr (password', pos')
     \<and> length password' = length password
     \<and> password' ! nat L = NUL
     \<and> (\<forall>j < length password. L < int j \<longrightarrow> password' ! j = password ! j)"
proof -
  have lo: "0 \<le> L" and hi: "L < int (length password)"
    using assms by (simp_all add: MIN_PASSWORD_LENGTH_def MAX_PASSWORD_LENGTH_def)
  show ?thesis
    using generate_password_string [OF lo hi, of src pos c] by blast
qed

theorem generate_password_frame_witness:
  "int MIN_PASSWORD_LENGTH \<le> 8 \<and> 8 \<le> int MAX_PASSWORD_LENGTH
   \<and> length (replicate 33 (CHR ''?'')) = MAX_PASSWORD_LENGTH + 1
   \<and> (\<exists>password' pos'.
         generate_password (\<lambda>n. n * n + 7) 0 (replicate 33 (CHR ''?'')) MIXED 8
           = Inr (password', pos')
       \<and> length password' = length (replicate 33 (CHR ''?''))
       \<and> password' ! nat 8 = NUL
       \<and> (\<forall>j < length (replicate 33 (CHR ''?'')).
             8 < int j \<longrightarrow> password' ! j = replicate 33 (CHR ''?'') ! j))"
  using generate_password_frame
    [where L = 8 and password = "replicate 33 (CHR ''?'')" and src = "\<lambda>n. n * n + 7"
       and pos = 0 and c = MIXED]
  by (simp add: MIN_PASSWORD_LENGTH_def MAX_PASSWORD_LENGTH_def)

text \<open>
  Claim C2. The server passes the decoded length to the generator without checking its
  range. Whenever \<^verbatim>\<open>atoi\<close> turns the length text of a request into a number above 32
  (whatever the C library does on overflow, and whatever lies behind the field), generation on
  the 33-byte password array of the response reaches a store at index 33, behind the
  array's last element: the out-of-bounds branch of \<open>store\<close> is taken. The request with
  selector \<^verbatim>\<open>n\<close> and length text \<^verbatim>\<open>40\<close> is such a request; there the failing store is that
  of the password's 34th character.
\<close>

theorem handle_password_request_overrun:
  assumes "atoi overflow (length_req request @ behind) = n" and "int MAX_PASSWORD_LENGTH < n"
    and "length (password_resp response) = MAX_PASSWORD_LENGTH + 1"
  shows "handle_password_request overflow behind src pos request response
           = Inl (OutOfBounds (int MAX_PASSWORD_LENGTH + 1))"
proof -
  have "int (length (password_resp response)) \<le> n"
    using assms by simp
  then have "generate_password src pos (password_resp response)
               (password_type_switch (type_req request)) n
             = Inl (OutOfBounds (int (length (password_resp response))))"
    by (rule generate_password_overrun)
  then show ?thesis
    using assms by (simp add: handle_password_request_def)
qed

theorem handle_password_request_overrun_witness:
  "atoi glibc_overflow
     (length_req \<lparr>type_req = CHR ''n'', length_req = ''40'' @ replicate 1022 NUL\<rparr> @ ''zz'')
     = 40
   \<and> int MAX_PASSWORD_LENGTH < 40
   \<and> length (password_resp \<lparr>password_resp = replicate 33 (CHR ''?'')\<rparr>)
        = MAX_PASSWORD_LENGTH + 1
   \<and> handle_password_request glibc_overflow ''zz'' (\<lambda>n. n * n + 7) 0
        \<lparr>type_req = CHR ''n'', length_req = ''40'' @ replicate 1022 NUL\<rparr>
        \<lparr>password_resp = replicate 33 (CHR ''?'')\<rparr>
      = Inl (OutOfBounds 33)"
proof -
  have a: "atoi glibc_overflow
     (length_req \<lparr>type_req = CHR ''n'', length_req = ''40'' @ replicate 1022 NUL\<rparr> @ ''zz'')
     = 40"
    by code_simp
  have b: "int MAX_PASSWORD_LENGTH < 40"
    by (simp add: MAX_PASSWORD_LENGTH_def)
  have c: "length (password_resp \<lparr>password_resp = replicate 33 (CHR ''?'')\<rparr>)
             = MAX_PASSWORD_LENGTH + 1"
    by (simp add: MAX_PASSWORD_LENGTH_def)
  show ?thesis
    using handle_password_request_overrun [OF a b c, of "\<lambda>n. n * n + 7" 0] a b c
    by (simp add: MAX_PASSWORD_LENGTH_def)
qed

text \<open>
  Claim C7. For class Mixed every output position takes two values from the random source,
  in this order: the parity of the first is the binary choice, and the second selects, when
  the choice is true, one of the 26 lowercase letters (its residue modulo 26) and otherwise
  one of the 10 digits (its residue modulo 10). The character is therefore the entry of
  \<open>mixed_outcomes\<close> at the pair of the two draws. Over one full period of the two draws
  (260 pairs) every letter is the outcome of 5 pairs and every digit of 13 pairs: letters
  and digits get 130 pairs each (one half each), every letter has the same share and every
  digit has the same share, and a letter's share (5 of 260) differs from a digit's
  (13 of 260), so the draw is not uniform over the 36 characters. How the values of
  \<^verbatim>\<open>rand()\<close> themselves are distributed belongs to the C library and is no part of the model.
\<close>

theorem generate_mixed_two_stage:
  assumes lo: "0 \<le> L" and hi: "L < int (length password)"
  shows "\<exists>password'. generate_mixed src pos password L = Inr (password', pos + 2 * nat L)
     \<and> (\<forall>j < nat L.
           password' ! j =
             (if src (pos + 2 * j) mod 2 \<noteq> 0
              then char_of (of_char CHR ''a'' + src (pos + 2 * j + 1) mod 26 :: nat)
              else char_of (of_char CHR ''0'' + src (pos + 2 * j + 1) mod 10 :: nat))
         \<and> password' ! j =
             mixed_outcomes ! (src (pos + 2 * j) mod 2 * 130 + src (pos + 2 * j + 1) mod 130))
     \<and> length mixed_outcomes = 260
     \<and> map (count_list mixed_outcomes) lowercase_chars = replicate 26 5
     \<and> map (count_list mixed_outcomes) digit_chars = replicate 10 13"
proof -
  obtain password' where
    run: "generate_mixed src pos password L = Inr (password', pos + 2 * nat L)"
    and at: "\<And>j. j < length password \<Longrightarrow> password' ! j =
           (if int j < L then fst (mixed_char src (pos + 2 * j))
            else if int j = L then NUL
            else password ! j)"
    using fill_and_terminate_result [of mixed_char src 2 L password pos] lo hi
    by (auto simp add: generate_mixed_def mixed_step)
  have pick: "password' ! j = fst (mixed_char src (pos + 2 * j))" if "j < nat L" for j
  proof -
    have "int j < L" and "j < length password"
      using that hi by arith+
    then show ?thesis
      using at [of j] by simp
  qed
  have "password' ! j =
          (if src (pos + 2 * j) mod 2 \<noteq> 0
           then char_of (of_char CHR ''a'' + src (pos + 2 * j + 1) mod 26 :: nat)
           else char_of (of_char CHR ''0'' + src (pos + 2 * j + 1) mod 10 :: nat))
        \<and> password' ! j =
          mixed_outcomes ! (src (pos + 2 * j) mod 2 * 130 + src (pos + 2 * j + 1) mod 130)"
    if "j < nat L" for j
    using pick [OF that] mixed_char_eq [of src "pos + 2 * j"]
      mixed_char_table [of src "pos + 2 * j"]
    by simp
  then show ?thesis
    using run mixed_outcomes_length mixed_outcomes_letters mixed_outcomes_digits by blast
qed

theorem generate_mixed_two_stage_witness:
  "(0::int) \<le> 8 \<and> 8 < int (length (replicate 33 (CHR ''?'')))
   \<and> (\<exists>password'.
         generate_mixed (\<lambda>n. n * n + 7) 0 (replicate 33 (CHR ''?'')) 8
           = Inr (password', 0 + 2 * nat 8)
       \<and> (\<forall>j < nat 8.
             password' ! j =
               (if (\<lambda>n. n * n + 7) (0 + 2 * j) mod 2 \<noteq> 0
                then char_of (of_char CHR ''a'' + (\<lambda>n. n * n + 7) (0 + 2 * j + 1) mod 26 :: nat)
                else char_of (of_char CHR ''0'' + (\<lambda>n. n * n + 7) (0 + 2 * j + 1) mod 10 :: nat))
           \<and> password' ! j =
               mixed_outcomes ! ((\<lambda>n. n * n + 7) (0 + 2 * j) mod 2 * 130
                                  + (\<lambda>n. n * n + 7) (0 + 2 * j + 1) mod 130))
       \<and> length mixed_outcomes = 260
       \<and> map (count_list mixed_outcomes) lowercase_chars = replicate 26 5
       \<and> map (count_list mixed_outcomes) digit_chars = replicate 10 13)"
proof -
  have a: "(0::int) \<le> 8" and b: "8 < int (length (replicate 33 (CHR ''?'')))"
    by simp_all
  show ?thesis
    using generate_mixed_two_stage [OF a b, of "\<lambda>n. n * n + 7" 0] a b by blast
qed

section \<open>The claims about the selector\<close>

text \<open>
  Claim C6. The server's conversion of the selector to a class ignores case: \<^verbatim>\<open>n\<close> and
  \<^verbatim>\<open>N\<close> give Numeric, \<^verbatim>\<open>a\<close> and \<^verbatim>\<open>A\<close> Alpha, \<^verbatim>\<open>m\<close> and \<^verbatim>\<open>M\<close> Mixed, \<^verbatim>\<open>s\<close> and \<^verbatim>\<open>S\<close> Secure,
  \<^verbatim>\<open>u\<close> and \<^verbatim>\<open>U\<close> Unambiguous, and every other byte gives Numeric.
\<close>

theorem password_type_switch_cases:
  "password_type_switch t =
     (if t = CHR ''a'' \<or> t = CHR ''A'' then ALPHA
      else if t = CHR ''m'' \<or> t = CHR ''M'' then MIXED
      else if t = CHR ''s'' \<or> t = CHR ''S'' then SECURE
      else if t = CHR ''u'' \<or> t = CHR ''U'' then UNAMBIGUOUS
      else NUMERIC)
   \<and> password_type_switch (CHR ''n'') = NUMERIC
   \<and> password_type_switch (CHR ''N'') = NUMERIC"
proof -
  have "\<forall>t. password_type_switch t =
     (if t = CHR ''a'' \<or> t = CHR ''A'' then ALPHA
      else if t = CHR ''m'' \<or> t = CHR ''M'' then MIXED
      else if t = CHR ''s'' \<or> t = CHR ''S'' then SECURE
      else if t = CHR ''u'' \<or> t = CHR ''U'' then UNAMBIGUOUS
      else NUMERIC)"
    by code_simp
  moreover have "password_type_switch (CHR ''n'') = NUMERIC"
    by code_simp
  moreover have "password_type_switch (CHR ''N'') = NUMERIC"
    by code_simp
  ultimately show ?thesis by blast
qed

text \<open>
  Claim C3, as amended. The client's class check, \<open>control_type\<close> applied to the allowed
  set \<^verbatim>\<open>"namsuq"\<close> as \<open>handle_user_input\<close> calls it, compares case-sensitively: it returns
  true exactly for the lowercase characters \<^verbatim>\<open>n a m s u\<close>, for the lowercase stop sentinel
  \<^verbatim>\<open>q\<close>, and for the NUL byte (which \<^verbatim>\<open>strchr\<close> finds at the string's terminator); it returns
  false for every other character, the uppercase letters \<^verbatim>\<open>N A M S U Q\<close> included.

  The claim as stated fails: \<^verbatim>\<open>N\<close> is rejected and \<^verbatim>\<open>q\<close> is accepted.
\<close>

theorem control_type_namsuq:
  "control_type ''namsuq'' t = (t \<in> set ''namsuq'' \<or> t = NUL)"
  by (auto simp add: control_type_def NUL_def)

theorem control_type_counterexample:
  "control_type ''namsuq'' (CHR ''N'') = False \<and> control_type ''namsuq'' (CHR ''q'') = True"
  by (simp add: control_type_def NUL_def)

section \<open>The claims about the wire\<close>

lemma recvfrom_whole:
  "length d = length object \<Longrightarrow> recvfrom (Datagram d) object = (int (length d), d)"
  by simp

lemma receive_request_short:
  assumes "length d < sizeof_PasswordRequest" and "length (length_req old) = BUFFER_SIZE"
  shows "receive_request (Datagram d) old
           = Inr (request_of_bytes (d @ drop (length d) (request_bytes old)))"
  using assms
  by (simp add: receive_request_def request_bytes_def sizeof_PasswordRequest_def)

lemma receive_request_fails: "(\<exists>e. receive_request incoming old = Inl e) = (incoming = RecvError)"
  by (cases incoming) (simp_all add: receive_request_def)

text \<open>
  Claim C9. Sending then receiving is the identity on records: the datagram that
  \<open>send_request\<close> hands over for a request \<open>r\<close> is the fixed-size image of \<open>r\<close>, and
  \<open>receive_request\<close> on that datagram yields \<open>r\<close> again, whatever the receiving
  record held before; the same holds for responses with \<open>send_response\<close> and
  \<open>receive_response\<close>. The records are those of the declared sizes (a length field of
  \<open>BUFFER_SIZE\<close> bytes, a password field of \<open>MAX_PASSWORD_LENGTH + 1\<close> bytes), which
  covers every valid record.
\<close>

theorem wire_round_trip:
  assumes "length (length_req r) = BUFFER_SIZE" and "length (length_req old) = BUFFER_SIZE"
    and "length (password_resp resp) = MAX_PASSWORD_LENGTH + 1"
    and "length (password_resp old_resp) = MAX_PASSWORD_LENGTH + 1"
  shows "(\<exists>d. send_request (int sizeof_PasswordRequest) r = Inr d
            \<and> length d = sizeof_PasswordRequest
            \<and> receive_request (Datagram d) old = Inr r)
       \<and> (\<exists>d. send_response (int sizeof_PasswordResponse) resp = Inr d
            \<and> length d = sizeof_PasswordResponse
            \<and> receive_response (Datagram d) old_resp = Inr resp)"
proof -
  have "length (request_bytes r) = length (request_bytes old)"
    using assms by (simp add: request_bytes_def)
  then have "recvfrom (Datagram (request_bytes r)) (request_bytes old)
               = (int (length (request_bytes r)), request_bytes r)"
    by (rule recvfrom_whole)
  moreover have "request_of_bytes (request_bytes r) = r"
    using assms by (simp add: request_of_bytes_def request_bytes_def)
  ultimately have "receive_request (Datagram (request_bytes r)) old = Inr r"
    by (simp add: receive_request_def)
  moreover have "length (request_bytes r) = sizeof_PasswordRequest"
    using assms by (simp add: request_bytes_def sizeof_PasswordRequest_def)
  ultimately have req: "\<exists>d. send_request (int sizeof_PasswordRequest) r = Inr d
            \<and> length d = sizeof_PasswordRequest
            \<and> receive_request (Datagram d) old = Inr r"
    by (simp add: send_request_def)
  have "length (response_bytes resp) = length (response_bytes old_resp)"
    using assms by (simp add: response_bytes_def)
  then have "recvfrom (Datagram (response_bytes resp)) (response_bytes old_resp)
               = (int (length (response_bytes resp)), response_bytes resp)"
    by (rule recvfrom_whole)
  moreover have "response_of_bytes (response_bytes resp) = resp"
    using assms by (simp add: response_of_bytes_def response_bytes_def)
  ultimately have "receive_response (Datagram (response_bytes resp)) old_resp = Inr resp"
    by (simp add: receive_response_def)
  moreover have "length (response_bytes resp) = sizeof_PasswordResponse"
    using assms by (simp add: response_bytes_def sizeof_PasswordResponse_def)
  ultimately have rsp: "\<exists>d. send_response (int sizeof_PasswordResponse) resp = Inr d
            \<and> length d = sizeof_PasswordResponse
            \<and> receive_response (Datagram d) old_resp = Inr resp"
    by (simp add: send_response_def)
  show ?thesis
    using req rsp by blast
qed

theorem wire_round_trip_witness:
  "length (length_req \<lparr>type_req = CHR ''n'', length_req = ''8'' @ replicate 1023 NUL\<rparr>)
     = BUFFER_SIZE
   \<and> length (length_req \<lparr>type_req = CHR ''x'', length_req = replicate 1024 (CHR ''x'')\<rparr>)
       = BUFFER_SIZE
   \<and> length (password_resp \<lparr>password_resp = ''78163236'' @ replicate 25 NUL\<rparr>)
       = MAX_PASSWORD_LENGTH + 1
   \<and> length (password_resp \<lparr>password_resp = replicate 33 (CHR ''?'')\<rparr>)
       = MAX_PASSWORD_LENGTH + 1
   \<and> (\<exists>d. send_request (int sizeof_PasswordRequest)
              \<lparr>type_req = CHR ''n'', length_req = ''8'' @ replicate 1023 NUL\<rparr> = Inr d
          \<and> length d = sizeof_PasswordRequest
          \<and> receive_request (Datagram d)
               \<lparr>type_req = CHR ''x'', length_req = replicate 1024 (CHR ''x'')\<rparr>
             = Inr \<lparr>type_req = CHR ''n'', length_req = ''8'' @ replicate 1023 NUL\<rparr>)
   \<and> (\<exists>d. send_response (int sizeof_PasswordResponse)
              \<lparr>password_resp = ''78163236'' @ replicate 25 NUL\<rparr> = Inr d
          \<and> length d = sizeof_PasswordResponse
          \<and> receive_response (Datagram d) \<lparr>password_resp = replicate 33 (CHR ''?'')\<rparr>
             = Inr \<lparr>password_resp = ''78163236'' @ replicate 25 NUL\<rparr>)"
proof -
  have a: "length (length_req \<lparr>type_req = CHR ''n'', length_req = ''8'' @ replicate 1023 NUL\<rparr>)
             = BUFFER_SIZE"
    and b: "length (length_req \<lparr>type_req = CHR ''x'', length_req = replicate 1024 (CHR ''x'')\<rparr>)
             = BUFFER_SIZE"
    by (simp_all add: BUFFER_SIZE_def)
  have c: "length (password_resp \<lparr>password_resp = ''78163236'' @ replicate 25 NUL\<rparr>)
             = MAX_PASSWORD_LENGTH + 1"
    and d: "length (password_resp \<lparr>password_resp = replicate 33 (CHR ''?'')\<rparr>)
             = MAX_PASSWORD_LENGTH + 1"
    by (simp_all add: MAX_PASSWORD_LENGTH_def)
  show ?thesis
    using wire_round_trip [OF a b c d] a b c d by blast
qed

text \<open>
  Claim C5, as amended. When the server receives a datagram shorter than the fixed request
  size, \<open>receive_request\<close> does not fail: the bytes received replace the front of the
  request record, the bytes behind them keep what the record held before, and the turn of
  the server's loop goes on to \<open>handle_password_request\<close> with that record.
  \<open>receive_request\<close> fails only when \<^verbatim>\<open>recvfrom\<close> itself reports an error. The code has
  no check of the received size and no error for a malformed message, in the server and in
  the client alike.

  The claim as stated fails: a datagram of three bytes is accepted and answered with a
  password.
\<close>

theorem receive_request_short_datagram:
  assumes "length d < sizeof_PasswordRequest" and "length (length_req old) = BUFFER_SIZE"
  shows "receive_request (Datagram d) old
           = Inr (request_of_bytes (d @ drop (length d) (request_bytes old)))
     \<and> server_main overflow src pos
          [\<lparr>turn_incoming = Datagram d, turn_sendto = n, turn_request = old,
            turn_behind = behind, turn_response = resp\<rparr>]
         = (case handle_password_request overflow behind src pos
                  (request_of_bytes (d @ drop (length d) (request_bytes old))) resp of
              Inl e \<Rightarrow> ([], Some e)
            | Inr (response, pos') \<Rightarrow>
                (case send_response n response of
                   Inl e \<Rightarrow> ([response_bytes response], Some e)
                 | Inr out \<Rightarrow> ([out], None)))
     \<and> (\<exists>e. receive_request incoming old = Inl e) = (incoming = RecvError)"
proof -
  have rcv: "receive_request (Datagram d) old
           = Inr (request_of_bytes (d @ drop (length d) (request_bytes old)))"
    by (rule receive_request_short [OF assms])
  then have "server_main overflow src pos
          [\<lparr>turn_incoming = Datagram d, turn_sendto = n, turn_request = old,
            turn_behind = behind, turn_response = resp\<rparr>]
         = (case handle_password_request overflow behind src pos
                  (request_of_bytes (d @ drop (length d) (request_bytes old))) resp of
              Inl e \<Rightarrow> ([], Some e)
            | Inr (response, pos') \<Rightarrow>
                (case send_response n response of
                   Inl e \<Rightarrow> ([response_bytes response], Some e)
                 | Inr out \<Rightarrow> ([out], None)))"
    by (simp split: sum.splits prod.splits)
  then show ?thesis
    using rcv receive_request_fails [of incoming old] by blast
qed


theorem receive_request_short_datagram_witness:
  "length [CHR ''n'', CHR ''8'', NUL] < sizeof_PasswordRequest
   \<and> length (length_req \<lparr>type_req = CHR ''x'', length_req = replicate 1024 (CHR ''x'')\<rparr>)
        = BUFFER_SIZE
   \<and> receive_request (Datagram [CHR ''n'', CHR ''8'', NUL])
        \<lparr>type_req = CHR ''x'', length_req = replicate 1024 (CHR ''x'')\<rparr>
      = Inr (request_of_bytes
               ([CHR ''n'', CHR ''8'', NUL]
                @ drop (length [CHR ''n'', CHR ''8'', NUL])
                    (request_bytes
                       \<lparr>type_req = CHR ''x'', length_req = replicate 1024 (CHR ''x'')\<rparr>)))"
proof -
  have a: "length [CHR ''n'', CHR ''8'', NUL] < sizeof_PasswordRequest"
    by (simp add: sizeof_PasswordRequest_def BUFFER_SIZE_def)
  have b: "length (length_req \<lparr>type_req = CHR ''x'', length_req = replicate 1024 (CHR ''x'')\<rparr>)
             = BUFFER_SIZE"
    by (simp add: BUFFER_SIZE_def)
  show ?thesis
    using receive_request_short_datagram [OF a b] a b by blast
qed

theorem receive_request_counterexample:
  "length [CHR ''n'', CHR ''8'', NUL] < sizeof_PasswordRequest
   \<and> receive_request (Datagram [CHR ''n'', CHR ''8'', NUL])
        \<lparr>type_req = CHR ''x'', length_req = replicate 1024 (CHR ''x'')\<rparr>
      = Inr \<lparr>type_req = CHR ''n'', length_req = CHR ''8'' # NUL # replicate 1022 (CHR ''x'')\<rparr>
   \<and> server_main glibc_overflow (\<lambda>n. n * n + 7) 0
        [\<lparr>turn_incoming = Datagram [CHR ''n'', CHR ''8'', NUL], turn_sendto = 33,
          turn_request = \<lparr>type_req = CHR ''x'', length_req = replicate 1024 (CHR ''x'')\<rparr>,
          turn_behind = ''zz'',
          turn_response = \<lparr>password_resp = replicate 33 (CHR ''?'')\<rparr>\<rparr>]
      = ([''78163236'' @ NUL # replicate 24 (CHR ''?'')], None)"
proof -
  have "length [CHR ''n'', CHR ''8'', NUL] < sizeof_PasswordRequest"
    by (simp add: sizeof_PasswordRequest_def BUFFER_SIZE_def)
  moreover have "receive_request (Datagram [CHR ''n'', CHR ''8'', NUL])
        \<lparr>type_req = CHR ''x'', length_req = replicate 1024 (CHR ''x'')\<rparr>
      = Inr \<lparr>type_req = CHR ''n'', length_req = CHR ''8'' # NUL # replicate 1022 (CHR ''x'')\<rparr>"
    by code_simp
  moreover have "server_main glibc_overflow (\<lambda>n. n * n + 7) 0
        [\<lparr>turn_incoming = Datagram [CHR ''n'', CHR ''8'', NUL], turn_sendto = 33,
          turn_request = \<lparr>type_req = CHR ''x'', length_req = replicate 1024 (CHR ''x'')\<rparr>,
          turn_behind = ''zz'',
          turn_response = \<lparr>password_resp = replicate 33 (CHR ''?'')\<rparr>\<rparr>]
      = ([''78163236'' @ NUL # replicate 24 (CHR ''?'')], None)"
    by code_simp
  ultimately show ?thesis
    by blast
qed

section \<open>The claims about the client's checks\<close>

lemma not_digit_NUL: "\<not> isdigit NUL"
  by (simp add: isdigit_def NUL_def)

lemma not_space_NUL: "\<not> isspace NUL"
  by (simp add: isspace_def NUL_def)

lemma digit_not_space: "isdigit c \<Longrightarrow> \<not> isspace c"
  by (auto simp add: isdigit_def isspace_def)

lemma digit_not_sign: "isdigit c \<Longrightarrow> c \<noteq> CHR ''-'' \<and> c \<noteq> CHR ''+''"
  by (auto simp add: isdigit_def)

lemma control_length_loop_c_str: "control_length_loop buf = list_all isdigit (c_str buf)"
  by (induction buf) (simp_all add: c_str_def)

lemma atoi_digits_c_str:
  "list_all isdigit (c_str buf) \<Longrightarrow>
   atoi_digits acc buf = foldl (\<lambda>a c. a * 10 + (of_char c - 48)) acc (c_str buf)"
proof (induction buf arbitrary: acc)
  case Nil
  then show ?case by (simp add: c_str_def)
next
  case (Cons c cs)
  show ?case
  proof (cases "c = NUL")
    case True
    then show ?thesis by (simp add: c_str_def not_digit_NUL)
  next
    case False
    then have "isdigit c" and "list_all isdigit (c_str cs)"
      using Cons.prems by (simp_all add: c_str_def)
    then show ?thesis
      using False Cons.IH by (simp add: c_str_def)
  qed
qed

lemma foldl_decimal_nonneg:
  "list_all isdigit s \<Longrightarrow> 0 \<le> acc \<Longrightarrow>
   (0::int) \<le> foldl (\<lambda>a c. a * 10 + (of_char c - 48)) acc s"
proof (induction s arbitrary: acc)
  case Nil
  then show ?case by simp
next
  case (Cons c s)
  then have "48 \<le> (of_char c :: nat)"
    by (simp add: isdigit_def)
  then have "48 \<le> int (of_char c)"
    by linarith
  then have "(0::int) \<le> of_char c - 48"
    by (simp add: of_nat_of_char)
  then have "0 \<le> acc * 10 + (of_char c - 48)"
    using Cons.prems by simp
  then show ?case
    using Cons by simp
qed

lemma atoi_all_digits:
  assumes "list_all isdigit (c_str buf)"
  shows "atoi overflow buf
           = (if decimal_value (c_str buf) \<le> INT_MAX then decimal_value (c_str buf)
              else overflow (decimal_value (c_str buf)))"
proof -
  have val: "atoi_digits 0 buf = decimal_value (c_str buf)"
    using atoi_digits_c_str [OF assms, of 0] by (simp add: decimal_value_def)
  have nonneg: "0 \<le> decimal_value (c_str buf)"
    using foldl_decimal_nonneg [OF assms, of 0] by (simp add: decimal_value_def)
  have "(case dropWhile isspace buf of
           [] \<Rightarrow> 0
         | c # r \<Rightarrow>
             if c = CHR ''-'' then - atoi_digits 0 r
             else if c = CHR ''+'' then atoi_digits 0 r
             else atoi_digits 0 (dropWhile isspace buf)) = atoi_digits 0 buf"
  proof (cases buf)
    case Nil
    then show ?thesis by simp
  next
    case (Cons c cs)
    show ?thesis
    proof (cases "c = NUL")
      case True
      have "NUL \<noteq> CHR ''-''" and "NUL \<noteq> CHR ''+''"
        by (simp_all add: NUL_def)
      then show ?thesis
        using Cons True by (simp add: not_space_NUL not_digit_NUL)
    next
      case False
      then have "isdigit c"
        using assms Cons by (simp add: c_str_def)
      then show ?thesis
        using Cons digit_not_space [of c] digit_not_sign [of c] by simp
    qed
  qed
  then show ?thesis
    using val nonneg by (simp add: atoi_def INT_MIN_def)
qed


text \<open>
  Claim C4, as amended. \<open>control_length text 6 32\<close> returns false for every text that
  contains a character other than a digit and for the empty text. For a text of digits
  only whose value an \<^verbatim>\<open>int\<close> can hold (at most 2147483647) it returns whether the value
  lies in the range 6 to 32, so it returns false for every such value outside the range;
  leading zeros do not count. It returns true for \<^verbatim>\<open>6\<close>, \<^verbatim>\<open>32\<close> and \<^verbatim>\<open>007\<close>, false for
  \<^verbatim>\<open>abc\<close> and \<^verbatim>\<open>33\<close>. All this holds whatever the C library does on overflow. For digit
  texts of a larger value the result is left open: the function converts with \<^verbatim>\<open>atoi\<close> and
  does not handle its overflow, as its own documentation warns.

  The claim as stated fails: the digit text \<^verbatim>\<open>4294967302\<close> has a value outside the range,
  and with glibc's conversion, which keeps the low 32 bits of it (the number 6), the check
  returns true.
\<close>

theorem control_length_6_32:
  "(\<not> list_all isdigit (c_str text) \<longrightarrow> \<not> control_length overflow text 6 32)
   \<and> (c_str text = [] \<longrightarrow> \<not> control_length overflow text 6 32)
   \<and> (list_all isdigit (c_str text) \<and> decimal_value (c_str text) \<le> INT_MAX \<longrightarrow>
        control_length overflow text 6 32
          = (6 \<le> decimal_value (c_str text) \<and> decimal_value (c_str text) \<le> 32))
   \<and> control_length overflow ''6'' 6 32
   \<and> control_length overflow ''32'' 6 32
   \<and> control_length overflow ''007'' 6 32
   \<and> \<not> control_length overflow ''abc'' 6 32
   \<and> \<not> control_length overflow ''33'' 6 32"
proof -
  have nondigit: "\<not> control_length overflow s 6 32"
    if "\<not> list_all isdigit (c_str s)" for s
    using that by (simp add: control_length_def control_length_loop_c_str)
  have digits: "control_length overflow s 6 32
          = (6 \<le> decimal_value (c_str s) \<and> decimal_value (c_str s) \<le> 32)"
    if "list_all isdigit (c_str s)" and "decimal_value (c_str s) \<le> INT_MAX" for s
    using that
    by (simp add: control_length_def control_length_loop_c_str atoi_all_digits Let_def)
  have empty: "\<not> control_length overflow text 6 32" if "c_str text = []"
  proof -
    have "list_all isdigit (c_str text)" and "decimal_value (c_str text) = 0"
      using that by (simp_all add: decimal_value_def)
    then show ?thesis
      using digits [of "text"] by (simp add: INT_MAX_def)
  qed
  have d6: "list_all isdigit (c_str ''6'')" "decimal_value (c_str ''6'') = 6"
    and d32: "list_all isdigit (c_str ''32'')" "decimal_value (c_str ''32'') = 32"
    and d007: "list_all isdigit (c_str ''007'')" "decimal_value (c_str ''007'') = 7"
    and d33: "list_all isdigit (c_str ''33'')" "decimal_value (c_str ''33'') = 33"
    and abc: "\<not> list_all isdigit (c_str ''abc'')"
    by code_simp+
  have "control_length overflow ''6'' 6 32"
    using digits [of "''6''"] d6 by (simp add: INT_MAX_def)
  moreover have "control_length overflow ''32'' 6 32"
    using digits [of "''32''"] d32 by (simp add: INT_MAX_def)
  moreover have "control_length overflow ''007'' 6 32"
    using digits [of "''007''"] d007 by (simp add: INT_MAX_def)
  moreover have "\<not> control_length overflow ''33'' 6 32"
    using digits [of "''33''"] d33 by (simp add: INT_MAX_def)
  moreover have "\<not> control_length overflow ''abc'' 6 32"
    using nondigit [of "''abc''"] abc by simp
  ultimately show ?thesis
    using nondigit [of "text"] empty digits [of "text"] by blast
qed

theorem control_length_6_32_witness:
  "\<not> list_all isdigit (c_str ''1x'') \<and> \<not> control_length glibc_overflow ''1x'' 6 32
   \<and> c_str [] = [] \<and> \<not> control_length glibc_overflow [] 6 32
   \<and> list_all isdigit (c_str ''5'') \<and> decimal_value (c_str ''5'') \<le> INT_MAX
   \<and> \<not> control_length glibc_overflow ''5'' 6 32
   \<and> list_all isdigit (c_str ''0032'') \<and> decimal_value (c_str ''0032'') \<le> INT_MAX
   \<and> control_length glibc_overflow ''0032'' 6 32"
proof -
  have a: "\<not> list_all isdigit (c_str ''1x'')"
    by code_simp
  have b: "c_str [] = []"
    by (simp add: c_str_def)
  have c: "list_all isdigit (c_str ''5'')" and c': "decimal_value (c_str ''5'') = 5"
    by code_simp+
  have d: "list_all isdigit (c_str ''0032'')" and d': "decimal_value (c_str ''0032'') = 32"
    by code_simp+
  show ?thesis
    using control_length_6_32 [of "''1x''" glibc_overflow]
      control_length_6_32 [of "[]" glibc_overflow]
      control_length_6_32 [of "''5''" glibc_overflow]
      control_length_6_32 [of "''0032''" glibc_overflow] a b c c' d d'
    by (simp add: INT_MAX_def)
qed

theorem control_length_counterexample:
  "list_all isdigit (c_str ''4294967302'') \<and> 32 < decimal_value (c_str ''4294967302'')
   \<and> control_length glibc_overflow ''4294967302'' 6 32"
  by code_simp

section \<open>The client's loop\<close>

text \<open>
  A request that \<open>handle_user_input\<close> accepts has passed both checks, and a selector that
  lets the loop go on is neither \<^verbatim>\<open>q\<close> nor \<^verbatim>\<open>Q\<close>. Hence everything the loop hands to
  \<^verbatim>\<open>sendto\<close> satisfies whatever holds of such requests.
\<close>

lemma check_user_input_ok:
  "check_user_input overflow a r = Inr (True, r') \<Longrightarrow>
   control_type ''namsuq'' (type_req r')
   \<and> control_length overflow (length_req r') (int MIN_PASSWORD_LENGTH)
       (int MAX_PASSWORD_LENGTH)"
  by (auto simp add: check_user_input_def split: if_splits sum.splits option.splits)

lemma handle_user_input_ok:
  "handle_user_input overflow lines r = Inr (True, r', rest) \<Longrightarrow>
   control_type ''namsuq'' (type_req r')
   \<and> control_length overflow (length_req r') (int MIN_PASSWORD_LENGTH)
       (int MAX_PASSWORD_LENGTH)"
proof (induction lines arbitrary: r)
  case Nil
  then show ?case by simp
next
  case (Cons line lines)
  then show ?case
    by (auto split: sum.splits if_splits prod.splits dest: check_user_input_ok)
qed

lemma keep_generating_q:
  "keep_generating t (CHR ''q'') \<Longrightarrow> t \<noteq> CHR ''q'' \<and> t \<noteq> CHR ''Q''"
proof -
  have "tolower (CHR ''q'') = CHR ''q''" and "tolower (CHR ''Q'') = CHR ''q''"
    by code_simp+
  then show "keep_generating t (CHR ''q'') \<Longrightarrow> t \<noteq> CHR ''q'' \<and> t \<noteq> CHR ''Q''"
    by (auto simp add: keep_generating_def)
qed

lemma control_length_digits:
  assumes "control_length overflow len (int MIN_PASSWORD_LENGTH) (int MAX_PASSWORD_LENGTH)"
  shows "list_all isdigit (c_str len)"
    and "decimal_value (c_str len) \<le> INT_MAX \<Longrightarrow>
         6 \<le> decimal_value (c_str len) \<and> decimal_value (c_str len) \<le> 32"
proof -
  show digits: "list_all isdigit (c_str len)"
    using assms by (simp add: control_length_def control_length_loop_c_str split: if_splits)
  show "6 \<le> decimal_value (c_str len) \<and> decimal_value (c_str len) \<le> 32"
    if "decimal_value (c_str len) \<le> INT_MAX"
    using assms that digits
    by (simp add: control_length_def control_length_loop_c_str atoi_all_digits Let_def
          MIN_PASSWORD_LENGTH_def MAX_PASSWORD_LENGTH_def)
qed

lemma client_main_sent:
  assumes P: "\<And>r. control_type ''namsuq'' (type_req r) \<Longrightarrow>
      control_length overflow (length_req r) (int MIN_PASSWORD_LENGTH)
        (int MAX_PASSWORD_LENGTH) \<Longrightarrow>
      keep_generating (type_req r) (CHR ''q'') \<Longrightarrow> P (request_bytes r)"
  shows "\<exists>new. fst (client_main overflow net lines req resp sent) = sent @ new
           \<and> list_all P new"
  using P
proof (induction overflow net lines req resp sent rule: client_main.induct)
  case (1 overflow net lines req resp sent)
  note P = "1.prems"
  show ?case
  proof (cases "handle_user_input overflow lines req")
    case (Inl e)
    then show ?thesis
      by (simp add: client_main.simps [of overflow net lines req resp sent])
  next
    case (Inr res)
    obtain ok r rest where res: "res = (ok, r, rest)"
      by (cases res)
    note hui = Inr [unfolded res]
    show ?thesis
    proof (cases ok)
      case False
      then show ?thesis
        using "1.IH"(1) [OF hui refl refl _ P] hui
        by (simp add: client_main.simps [of overflow net lines req resp sent])
    next
      case True
      note ok = True
      show ?thesis
      proof (cases "keep_generating (type_req r) (CHR ''q'')")
        case False
        then show ?thesis
          using hui ok by (simp add: client_main.simps [of overflow net lines req resp sent])
      next
        case True
        have Pr: "P (request_bytes r)"
          using handle_user_input_ok [of overflow lines req r rest] hui ok True
          by (auto intro: P)
        show ?thesis
        proof (cases "send_request (fst (net (length sent))) r")
          case (Inl e)
          then show ?thesis
            using hui ok True Pr
            by (simp add: client_main.simps [of overflow net lines req resp sent])
        next
          case (Inr d)
          then have d: "d = request_bytes r"
            by (simp add: send_request_def split: if_splits)
          show ?thesis
          proof (cases "receive_response (snd (net (length sent))) resp")
            case (Inl e)
            then show ?thesis
              using hui ok True Pr Inr d
              by (simp add: client_main.simps [of overflow net lines req resp sent])
          next
            case rr: (Inr resp')
            obtain new where
              "fst (client_main overflow net rest r resp' (sent @ [d])) = (sent @ [d]) @ new"
              and "list_all P new"
              using "1.IH"(2) [OF hui refl refl _ _ Inr rr P] ok True by auto
            then have "fst (client_main overflow net lines req resp sent) = sent @ (d # new)
                       \<and> list_all P (d # new)"
              using hui ok True Pr Inr d rr
              by (simp add: client_main.simps [of overflow net lines req resp sent])
            then show ?thesis by blast
          qed
        qed
      qed
    qed
  qed
qed

text \<open>
  Claim C8, as amended. The client never hands to the network a request that its own checks
  reject. Whatever the user types, whatever the transport does and whatever the C library
  does on overflow, every datagram that a run of the client's loop passes to \<^verbatim>\<open>sendto\<close> is
  the image of a request for which \<open>control_type\<close> and \<open>control_length\<close> have returned
  true and whose selector is neither \<^verbatim>\<open>q\<close> nor \<^verbatim>\<open>Q\<close>; the length text of such a request
  consists of digits only and, when its value fits an \<^verbatim>\<open>int\<close>, lies in the range 6 to 32.
  Turn by turn: when the request that \<open>handle_user_input\<close> leaves fails one of the two
  checks, the turn ends without any network call and the loop reads the next input; when
  its selector is \<^verbatim>\<open>q\<close> or \<^verbatim>\<open>Q\<close>, nothing is sent in that turn either: the loop ends if the
  request was accepted and reads the next input if it was not. For a digit text whose value
  does not fit an \<^verbatim>\<open>int\<close>, whether the request is sent is left open: it follows the
  overflow of \<^verbatim>\<open>atoi\<close> that \<open>control_length\<close> does not handle.

  The claim as stated fails: with glibc's conversion the client sends the request with
  selector \<^verbatim>\<open>n\<close> and length text \<^verbatim>\<open>4294967302\<close>, a length outside the range.
\<close>

theorem client_sends_checked_requests_only:
  "(\<exists>new. fst (client_main overflow net lines req resp sent) = sent @ new
       \<and> (\<forall>d \<in> set new. \<exists>r. d = request_bytes r
             \<and> control_type ''namsuq'' (type_req r)
             \<and> control_length overflow (length_req r) (int MIN_PASSWORD_LENGTH)
                  (int MAX_PASSWORD_LENGTH)
             \<and> type_req r \<noteq> CHR ''q'' \<and> type_req r \<noteq> CHR ''Q''
             \<and> list_all isdigit (c_str (length_req r))
             \<and> (decimal_value (c_str (length_req r)) \<le> INT_MAX \<longrightarrow>
                  6 \<le> decimal_value (c_str (length_req r))
                  \<and> decimal_value (c_str (length_req r)) \<le> 32)))
   \<and> (handle_user_input overflow lines req = Inr (ok, r, rest)
        \<and> \<not> (control_type ''namsuq'' (type_req r)
              \<and> control_length overflow (length_req r) (int MIN_PASSWORD_LENGTH)
                   (int MAX_PASSWORD_LENGTH))
        \<longrightarrow> client_main overflow net lines req resp sent
              = client_main overflow net rest r resp sent)
   \<and> (handle_user_input overflow lines req = Inr (ok, r, rest)
        \<and> (type_req r = CHR ''q'' \<or> type_req r = CHR ''Q'')
        \<longrightarrow> client_main overflow net lines req resp sent
              = (if ok then (sent, EXIT_SUCCESS)
                 else client_main overflow net rest r resp sent))"
proof -
  let ?P = "\<lambda>d. \<exists>r. d = request_bytes r
             \<and> control_type ''namsuq'' (type_req r)
             \<and> control_length overflow (length_req r) (int MIN_PASSWORD_LENGTH)
                  (int MAX_PASSWORD_LENGTH)
             \<and> type_req r \<noteq> CHR ''q'' \<and> type_req r \<noteq> CHR ''Q''
             \<and> list_all isdigit (c_str (length_req r))
             \<and> (decimal_value (c_str (length_req r)) \<le> INT_MAX \<longrightarrow>
                  6 \<le> decimal_value (c_str (length_req r))
                  \<and> decimal_value (c_str (length_req r)) \<le> 32)"
  have "\<exists>new. fst (client_main overflow net lines req resp sent) = sent @ new
          \<and> list_all ?P new"
  proof (rule client_main_sent)
    fix r :: PasswordRequest
    assume "control_type ''namsuq'' (type_req r)"
      and len: "control_length overflow (length_req r) (int MIN_PASSWORD_LENGTH)
                  (int MAX_PASSWORD_LENGTH)"
      and "keep_generating (type_req r) (CHR ''q'')"
    then show "?P (request_bytes r)"
      using keep_generating_q [of "type_req r"] control_length_digits [OF len] by blast
  qed
  then have trace: "\<exists>new. fst (client_main overflow net lines req resp sent) = sent @ new
       \<and> (\<forall>d \<in> set new. ?P d)"
    by (simp add: list_all_iff)
  have skip: "client_main overflow net lines req resp sent
                = client_main overflow net rest r resp sent"
    if h: "handle_user_input overflow lines req = Inr (ok, r, rest)"
      and bad: "\<not> (control_type ''namsuq'' (type_req r)
              \<and> control_length overflow (length_req r) (int MIN_PASSWORD_LENGTH)
                   (int MAX_PASSWORD_LENGTH))"
  proof -
    have "\<not> ok"
      using handle_user_input_ok [of overflow lines req r rest] h bad by (cases ok) auto
    then show ?thesis
      using h by (simp add: client_main.simps [of overflow net lines req resp sent])
  qed
  have stop: "client_main overflow net lines req resp sent
                = (if ok then (sent, EXIT_SUCCESS)
                   else client_main overflow net rest r resp sent)"
    if h: "handle_user_input overflow lines req = Inr (ok, r, rest)"
      and q: "type_req r = CHR ''q'' \<or> type_req r = CHR ''Q''"
  proof -
    have "\<not> keep_generating (type_req r) (CHR ''q'')"
      using keep_generating_q [of "type_req r"] q by blast
    then show ?thesis
      using h by (simp add: client_main.simps [of overflow net lines req resp sent])
  qed
  show ?thesis
    using trace skip stop by blast
qed

theorem client_sends_checked_requests_only_witness:
  "handle_user_input glibc_overflow
       [TwoItems (CHR ''N'') ''8'', OneItem (CHR ''a''), OneItem (CHR ''q'')]
       \<lparr>type_req = CHR ''x'', length_req = replicate 1024 (CHR ''x'')\<rparr>
     = Inr (False,
            \<lparr>type_req = CHR ''N'',
              length_req = ''8'' @ NUL # replicate 1021 (CHR ''x'') @ [NUL]\<rparr>,
            [OneItem (CHR ''a''), OneItem (CHR ''q'')])
   \<and> \<not> control_type ''namsuq'' (CHR ''N'')
   \<and> client_main glibc_overflow (\<lambda>n. (1025, Datagram (''78163236'' @ replicate 25 NUL)))
        [TwoItems (CHR ''N'') ''8'', OneItem (CHR ''a''), OneItem (CHR ''q'')]
        \<lparr>type_req = CHR ''x'', length_req = replicate 1024 (CHR ''x'')\<rparr>
        \<lparr>password_resp = replicate 33 (CHR ''?'')\<rparr> []
     = client_main glibc_overflow (\<lambda>n. (1025, Datagram (''78163236'' @ replicate 25 NUL)))
        [OneItem (CHR ''a''), OneItem (CHR ''q'')]
        \<lparr>type_req = CHR ''N'',
          length_req = ''8'' @ NUL # replicate 1021 (CHR ''x'') @ [NUL]\<rparr>
        \<lparr>password_resp = replicate 33 (CHR ''?'')\<rparr> []
   \<and> fst (client_main glibc_overflow
             (\<lambda>n. (1025, Datagram (''78163236'' @ replicate 25 NUL)))
             [TwoItems (CHR ''N'') ''8'', OneItem (CHR ''a''), OneItem (CHR ''q'')]
             \<lparr>type_req = CHR ''x'', length_req = replicate 1024 (CHR ''x'')\<rparr>
             \<lparr>password_resp = replicate 33 (CHR ''?'')\<rparr> [])
     = [CHR ''a'' # ''8'' @ NUL # replicate 1021 (CHR ''x'') @ [NUL]]
   \<and> (\<exists>r. CHR ''a'' # ''8'' @ NUL # replicate 1021 (CHR ''x'') @ [NUL] = request_bytes r
          \<and> control_type ''namsuq'' (type_req r)
          \<and> control_length glibc_overflow (length_req r) (int MIN_PASSWORD_LENGTH)
               (int MAX_PASSWORD_LENGTH)
          \<and> type_req r \<noteq> CHR ''q'' \<and> type_req r \<noteq> CHR ''Q''
          \<and> list_all isdigit (c_str (length_req r))
          \<and> decimal_value (c_str (length_req r)) \<le> INT_MAX
          \<and> 6 \<le> decimal_value (c_str (length_req r))
          \<and> decimal_value (c_str (length_req r)) \<le> 32)
   \<and> handle_user_input glibc_overflow [OneItem (CHR ''q'')]
        \<lparr>type_req = CHR ''x'', length_req = replicate 1024 (CHR ''x'')\<rparr>
     = Inr (True,
            \<lparr>type_req = CHR ''q'',
              length_req = ''8'' @ NUL # replicate 1021 (CHR ''x'') @ [NUL]\<rparr>,
            [])
   \<and> client_main glibc_overflow (\<lambda>n. (1025, Datagram (''78163236'' @ replicate 25 NUL)))
        [OneItem (CHR ''q'')]
        \<lparr>type_req = CHR ''x'', length_req = replicate 1024 (CHR ''x'')\<rparr>
        \<lparr>password_resp = replicate 33 (CHR ''?'')\<rparr> []
     = ([], EXIT_SUCCESS)
   \<and> handle_user_input glibc_overflow [OneItem (CHR ''Q'')]
        \<lparr>type_req = CHR ''x'', length_req = replicate 1024 (CHR ''x'')\<rparr>
     = Inr (False,
            \<lparr>type_req = CHR ''Q'',
              length_req = ''8'' @ NUL # replicate 1021 (CHR ''x'') @ [NUL]\<rparr>,
            [])
   \<and> client_main glibc_overflow (\<lambda>n. (1025, Datagram (''78163236'' @ replicate 25 NUL)))
        [OneItem (CHR ''Q'')]
        \<lparr>type_req = CHR ''x'', length_req = replicate 1024 (CHR ''x'')\<rparr>
        \<lparr>password_resp = replicate 33 (CHR ''?'')\<rparr> []
     = client_main glibc_overflow (\<lambda>n. (1025, Datagram (''78163236'' @ replicate 25 NUL)))
        []
        \<lparr>type_req = CHR ''Q'',
          length_req = ''8'' @ NUL # replicate 1021 (CHR ''x'') @ [NUL]\<rparr>
        \<lparr>password_resp = replicate 33 (CHR ''?'')\<rparr> []"
proof -
  let ?net = "\<lambda>n::nat. (1025::int, Datagram (''78163236'' @ replicate 25 NUL))"
  let ?lines = "[TwoItems (CHR ''N'') ''8'', OneItem (CHR ''a''), OneItem (CHR ''q'')]"
  let ?r0 = "\<lparr>type_req = CHR ''x'', length_req = replicate 1024 (CHR ''x'')\<rparr>"
  let ?p0 = "\<lparr>password_resp = replicate 33 (CHR ''?'')\<rparr>"
  let ?len = "''8'' @ NUL # replicate 1021 (CHR ''x'') @ [NUL]"
  let ?rN = "\<lparr>type_req = CHR ''N'', length_req = ?len\<rparr>"
  let ?rq = "\<lparr>type_req = CHR ''q'', length_req = ?len\<rparr>"
  let ?rQ = "\<lparr>type_req = CHR ''Q'', length_req = ?len\<rparr>"
  let ?d = "CHR ''a'' # ?len"
  have hN: "handle_user_input glibc_overflow ?lines ?r0
              = Inr (False, ?rN, [OneItem (CHR ''a''), OneItem (CHR ''q'')])"
    by code_simp
  have bad: "\<not> control_type ''namsuq'' (CHR ''N'')"
    by (simp add: control_type_def NUL_def)
  have hq: "handle_user_input glibc_overflow [OneItem (CHR ''q'')] ?r0 = Inr (True, ?rq, [])"
    by code_simp
  have hQ: "handle_user_input glibc_overflow [OneItem (CHR ''Q'')] ?r0 = Inr (False, ?rQ, [])"
    by code_simp
  have run: "fst (client_main glibc_overflow ?net ?lines ?r0 ?p0 []) = [?d]"
    by code_simp
  have val: "decimal_value (c_str ?len) = 8"
    by code_simp
  note A = client_sends_checked_requests_only
    [of glibc_overflow ?net ?lines ?r0 ?p0 "[]" False ?rN
       "[OneItem (CHR ''a''), OneItem (CHR ''q'')]"]
  note B = client_sends_checked_requests_only
    [of glibc_overflow ?net "[OneItem (CHR ''q'')]" ?r0 ?p0 "[]" True ?rq "[]"]
  note C = client_sends_checked_requests_only
    [of glibc_overflow ?net "[OneItem (CHR ''Q'')]" ?r0 ?p0 "[]" False ?rQ "[]"]
  have skip: "client_main glibc_overflow ?net ?lines ?r0 ?p0 []
                = client_main glibc_overflow ?net [OneItem (CHR ''a''), OneItem (CHR ''q'')]
                    ?rN ?p0 []"
    using A hN bad by simp
  obtain r where r: "?d = request_bytes r"
    and checked: "control_type ''namsuq'' (type_req r)"
      "control_length glibc_overflow (length_req r) (int MIN_PASSWORD_LENGTH)
         (int MAX_PASSWORD_LENGTH)"
      "type_req r \<noteq> CHR ''q''" "type_req r \<noteq> CHR ''Q''"
      "list_all isdigit (c_str (length_req r))"
    and range: "decimal_value (c_str (length_req r)) \<le> INT_MAX \<longrightarrow>
                  6 \<le> decimal_value (c_str (length_req r))
                  \<and> decimal_value (c_str (length_req r)) \<le> 32"
    using A run by (simp only: append_Nil) auto
  have "length_req r = ?len"
    using r by (simp add: request_bytes_def)
  then have small: "decimal_value (c_str (length_req r)) \<le> INT_MAX"
    using val by (simp add: INT_MAX_def)
  have sent: "\<exists>r. ?d = request_bytes r
          \<and> control_type ''namsuq'' (type_req r)
          \<and> control_length glibc_overflow (length_req r) (int MIN_PASSWORD_LENGTH)
               (int MAX_PASSWORD_LENGTH)
          \<and> type_req r \<noteq> CHR ''q'' \<and> type_req r \<noteq> CHR ''Q''
          \<and> list_all isdigit (c_str (length_req r))
          \<and> decimal_value (c_str (length_req r)) \<le> INT_MAX
          \<and> 6 \<le> decimal_value (c_str (length_req r))
          \<and> decimal_value (c_str (length_req r)) \<le> 32"
    using r checked range small by blast
  have stop: "client_main glibc_overflow ?net [OneItem (CHR ''q'')] ?r0 ?p0 []
                = ([], EXIT_SUCCESS)"
    using B hq by simp
  have skipQ: "client_main glibc_overflow ?net [OneItem (CHR ''Q'')] ?r0 ?p0 []
                = client_main glibc_overflow ?net [] ?rQ ?p0 []"
    using C hQ by simp
  show ?thesis
    using hN bad skip run sent hq stop hQ skipQ by blast
qed

theorem client_main_counterexample:
  "list_all isdigit (c_str ''4294967302'') \<and> 32 < decimal_value (c_str ''4294967302'')
   \<and> client_main glibc_overflow (\<lambda>n. (1025, Datagram (''78163236'' @ replicate 25 NUL)))
        [TwoItems (CHR ''n'') ''4294967302'', OneItem (CHR ''q'')]
        \<lparr>type_req = CHR ''x'', length_req = replicate 1024 (CHR ''x'')\<rparr>
        \<lparr>password_resp = replicate 33 (CHR ''?'')\<rparr> []
     = ([request_bytes
           \<lparr>type_req = CHR ''n'',
             length_req = ''4294967302'' @ NUL # replicate 1012 (CHR ''x'') @ [NUL]\<rparr>],
        EXIT_SUCCESS)
   \<and> c_str (''4294967302'' @ NUL # replicate 1012 (CHR ''x'') @ [NUL]) = ''4294967302''"
proof -
  have "list_all isdigit (c_str ''4294967302'')"
    and "32 < decimal_value (c_str ''4294967302'')"
    and "c_str (''4294967302'' @ NUL # replicate 1012 (CHR ''x'') @ [NUL]) = ''4294967302''"
    by code_simp+
  moreover have "client_main glibc_overflow
        (\<lambda>n. (1025, Datagram (''78163236'' @ replicate 25 NUL)))
        [TwoItems (CHR ''n'') ''4294967302'', OneItem (CHR ''q'')]
        \<lparr>type_req = CHR ''x'', length_req = replicate 1024 (CHR ''x'')\<rparr>
        \<lparr>password_resp = replicate 33 (CHR ''?'')\<rparr> []
     = ([request_bytes
           \<lparr>type_req = CHR ''n'',
             length_req = ''4294967302'' @ NUL # replicate 1012 (CHR ''x'') @ [NUL]\<rparr>],
        EXIT_SUCCESS)"
    by code_simp
  ultimately show ?thesis
    by blast
qed

end
